theory Spec2Isabelle
  imports Main "HOL-Library.Word"
begin

section \<open>The adder of IPFS Cluster (adder/adder.go)\<close>

text \<open>
  The package drives three collaborators that live outside the file: the file source
  (\<open>files.File\<close>), the content DAG builder (\<open>ipfsadd.Adder\<close>) and the cluster DAG
  service (\<open>ClusterDAGService\<close>).  Their answers are parameters of the model (the record
  \<open>env\<close> below); the control flow of \<open>New\<close>, \<open>setContext\<close>, \<open>FromMultipart\<close>,
  \<open>FromFiles\<close> and \<open>addFile\<close> is translated from the source line by line.
\<close>

subsection \<open>Errors and contexts\<close>

text \<open>The two errors a \<open>context.Context\<close> reports once it is done.\<close>

datatype ctx_err = Canceled | DeadlineExceeded

text \<open>
  Go error values.  \<open>EOF\<close> is the sentinel \<open>io.EOF\<close> the loop compares against,
  \<open>ContextError\<close> is what \<open>ctx.Err()\<close> returns, \<open>ErrorString\<close> is any other error
  (those made by \<open>fmt.Errorf\<close> included), identified by its message.
\<close>

datatype error = EOF | ContextError ctx_err | ErrorString string

fun Error :: "error \<Rightarrow> string" where
  "Error EOF = ''EOF''"
| "Error (ContextError Canceled) = ''context canceled''"
| "Error (ContextError DeadlineExceeded) = ''context deadline exceeded''"
| "Error (ErrorString s) = s"

text \<open>
  A context is seen through its \<open>Err()\<close>: \<open>None\<close> while it is live, \<open>Some e\<close> once it is
  done.  A context never leaves the done state.
\<close>

type_synonym Context = "ctx_err option"

subsection \<open>Data\<close>

type_synonym Cid = string

text \<open>\<open>cid.Prefix\<close>: three \<open>uint64\<close> fields and the \<open>int\<close> multihash length.\<close>

record Prefix =
  Version :: "64 word"
  Codec :: "64 word"
  MhType :: "64 word"
  MhLength :: int

text \<open>
  Modelled from the spec: \<open>api.AddParams\<close> is declared in the package \<open>api\<close>, which is not
  part of the sources at hand; the fields are the ones the specification lists.
\<close>

record AddParams =
  Hidden :: bool
  Layout :: string
  RawLeaves :: bool
  Wrap :: bool
  Chunker :: string
  Progress :: bool
  CidVersion :: int
  HashFun :: string

text \<open>
  Modelled from the spec: \<open>api.AddedOutput\<close>, the progress event, is declared in the
  package \<open>api\<close> as well.
\<close>

record AddedOutput =
  Name :: string
  Hash :: Cid
  Size :: nat

text \<open>
  A \<open>files.File\<close> value.  \<open>MultipartFile\<close> is the implementation \<open>FromMultipart\<close> builds
  around a \<open>*multipart.Reader\<close> (a reference, modelled by its address); every other
  implementation is a \<open>NamedFile\<close>, identified by its full path.
\<close>

datatype File = MultipartFile (Mediatype: string) (Reader: nat) | NamedFile string

text \<open>A reference to a \<open>ClusterDAGService\<close>; what its \<open>Finalize\<close> answers is in \<open>env\<close>.\<close>

type_synonym ClusterDAGService = nat

text \<open>
  The fields of \<open>ipfsadd.Adder\<close> that \<open>FromFiles\<close> assigns.  The field \<open>Out\<close> is a reference
  to the adder's own output channel; the model keeps that one channel in the adder.
\<close>

record ipfsAdder =
  Hidden :: bool
  Trickle :: bool
  RawLeaves :: bool
  Wrap :: bool
  Chunker :: string
  Progress :: bool
  CidBuilder :: "Prefix option"

subsection \<open>Channels\<close>

text \<open>
  The output channel with its single sender.  \<open>sent\<close> logs the events put on the channel
  so far.  The receiving side is summarised by \<open>taker\<close>: \<open>Drain\<close> is a receiver that
  takes every event (the goroutine \<open>for range out {}\<close> of \<open>New\<close>), \<open>Takes n\<close> a listener
  that receives \<open>n\<close> events in all.  A send on a closed channel panics; a send on an open
  channel completes when the buffer has room or the receiver still takes, and blocks for
  good otherwise.
\<close>

datatype taker = Drain | Takes nat

record chan =
  capacity :: nat
  sent :: "AddedOutput list"
  closed :: bool
  taker :: taker

text \<open>
  How a call ends when it ends: it returns a value or it panics.  A call that never ends
  (a blocked send, an endless loop) is \<open>None\<close> in the \<open>option\<close> around the result.
\<close>

datatype 'a flow = Returns 'a | Panic

definition room :: "chan \<Rightarrow> bool" where
  "room c = (case taker c of Drain \<Rightarrow> True | Takes n \<Rightarrow> length (sent c) < capacity c + n)"

fun sends :: "chan \<Rightarrow> AddedOutput list \<Rightarrow> (unit flow \<times> chan) option" where
  "sends c [] = Some (Returns (), c)"
| "sends c (e # es) =
     (if closed c then Some (Panic, c)
      else if room c then sends (c\<lparr>sent := sent c @ [e]\<rparr>) es
      else None)"

subsection \<open>The adder and the world around it\<close>

text \<open>
  \<open>ctx\<close> is \<open>None\<close> while the field is \<open>nil\<close>, and \<open>Some c\<close> once \<open>setContext\<close> has stored
  the derived context, \<open>c\<close> being its state.  The field \<open>cancel\<close> of the source is the
  cancel function of that same context: the function \<open>cancel\<close> below.  The field
  \<open>output\<close> is \<open>output_chan\<close> here, \<open>output\<close> being a keyword of Isabelle.
\<close>

record Adder =
  ctx :: "Context option"
  dgs :: ClusterDAGService
  params :: AddParams
  output_chan :: chan

text \<open>
  What the adder does to its collaborators, in the order it does it.  Every entry of the
  trace is stamped with the state of the adder's context at that moment.  \<open>Select\<close> is
  the \<open>select\<close> on \<open>a.ctx.Done()\<close> at the top of a loop iteration; the other entries
  are calls, with their arguments and how they ended.
\<close>

datatype call =
    NewAdderCall ClusterDAGService "error option"
  | Select
  | NextFileCall File "error + File"
  | AddFileCall ipfsAdder File "AddedOutput list" "error option flow"
  | CloseCall File
  | FinalizeCall ipfsAdder "AddedOutput list" "(error + Cid) flow"
  | ClusterFinalizeCall ClusterDAGService Cid "error + Cid"

type_synonym trace = "(Context \<times> call) list"

record world =
  adder :: Adder
  calls :: trace
  fpos :: nat

text \<open>
  The collaborators.  Each answers as a function of its arguments, of the trace so far
  and of the state of the context it was given; \<open>NextFile f k\<close> is the answer of the
  source \<open>f\<close> to its \<open>k\<close>-th call (\<open>fpos\<close> counts them).  The builder puts the listed events
  on \<open>Out\<close> before it returns, and that is all it does with the channel: its answers do
  not depend on the channel's state.  \<open>cancelAt n\<close> is the cancellation of the caller's
  context that arrives while the call that is entry number \<open>n\<close> of the trace is under
  way, if one does; a \<open>Select\<close> takes no time, and nothing arrives during one.
  \<open>PrefixForCidVersion\<close> (go-merkledag) and \<open>Names\<close> (go-multihash) are library values.
\<close>

record env =
  cancelAt :: "nat \<Rightarrow> ctx_err option"
  NextFile :: "File \<Rightarrow> nat \<Rightarrow> error + File"
  NewAdder :: "trace \<Rightarrow> Context \<Rightarrow> ClusterDAGService \<Rightarrow> error option"
  AddFile :: "trace \<Rightarrow> Context \<Rightarrow> ipfsAdder \<Rightarrow> File \<Rightarrow> AddedOutput list \<times> error option"
  Finalize :: "trace \<Rightarrow> Context \<Rightarrow> ipfsAdder \<Rightarrow> AddedOutput list \<times> (error + Cid)"
  dgsFinalize :: "ClusterDAGService \<Rightarrow> trace \<Rightarrow> Context \<Rightarrow> Cid \<Rightarrow> error + Cid"
  PrefixForCidVersion :: "int \<Rightarrow> error + Prefix"
  Names :: "string \<Rightarrow> 64 word option"

text \<open>The state of the adder's context; a \<open>nil\<close> context counts as live.\<close>

definition token :: "world \<Rightarrow> Context" where
  "token w = (case ctx (adder w) of None \<Rightarrow> None | Some c \<Rightarrow> c)"

text \<open>A cancellation of the parent reaches the derived context, unless it is done already.\<close>

definition arrive :: "ctx_err option \<Rightarrow> Adder \<Rightarrow> Adder" where
  "arrive e a = (case ctx a of Some None \<Rightarrow> a\<lparr>ctx := Some e\<rparr> | _ \<Rightarrow> a)"

definition cancel :: "Adder \<Rightarrow> Adder" where
  "cancel a = (case ctx a of Some None \<Rightarrow> a\<lparr>ctx := Some (Some Canceled)\<rparr> | _ \<Rightarrow> a)"

text \<open>\<open>observe\<close> appends an entry; \<open>record_call\<close> also lets the cancellation due then arrive.\<close>

definition observe :: "call \<Rightarrow> world \<Rightarrow> world" where
  "observe c w = w\<lparr>calls := calls w @ [(token w, c)]\<rparr>"

definition record_call :: "env \<Rightarrow> call \<Rightarrow> world \<Rightarrow> world" where
  "record_call E c w =
     w\<lparr>calls := calls w @ [(token w, c)],
       adder := arrive (cancelAt E (length (calls w))) (adder w)\<rparr>"

text \<open>The builder puts events on the adder's output channel.\<close>

definition emit :: "AddedOutput list \<Rightarrow> world \<Rightarrow> (unit flow \<times> world) option" where
  "emit evs w =
     (case sends (output_chan (adder w)) evs of
        None \<Rightarrow> None
      | Some (r, ch) \<Rightarrow> Some (r, w\<lparr>adder := (adder w)\<lparr>output_chan := ch\<rparr>\<rparr>))"

subsection \<open>New and setContext\<close>

definition New :: "ClusterDAGService \<Rightarrow> AddParams \<Rightarrow> chan option \<Rightarrow> Adder" where
  "New ds p out =
     \<lparr>ctx = None, dgs = ds, params = p,
      output_chan = (case out of
                  None \<Rightarrow> \<lparr>capacity = 100, sent = [], closed = False, taker = Drain\<rparr>
                | Some ch \<Rightarrow> ch)\<rparr>"

text \<open>
  \<open>context.WithCancel\<close> of a parent that is done gives a context that is done with the
  parent's error; the argument is the state of the caller's context at the call.
\<close>

definition setContext :: "Context \<Rightarrow> Adder \<Rightarrow> Adder" where
  "setContext c a = (case ctx a of None \<Rightarrow> a\<lparr>ctx := Some c\<rparr> | Some _ \<Rightarrow> a)"

subsection \<open>addFile and the loop\<close>

text \<open>
  The call \<open>ipfsAdder.AddFile(f)\<close>, with the events the builder sends meanwhile.  The
  package \<open>ipfsadd\<close> is not among the sources at hand: what the builder returns and which
  events it reports are parameters, and, as the specification has it, the events of a
  call go to the output channel the adder handed over, during the call and in order.
\<close>

definition callAddFile ::
  "env \<Rightarrow> ipfsAdder \<Rightarrow> File \<Rightarrow> world \<Rightarrow> (error option flow \<times> world) option" where
  "callAddFile E b f w =
     (case AddFile E (calls w) (token w) b f of (evs, r) \<Rightarrow>
        (case emit evs w of
           None \<Rightarrow> None
         | Some (Panic, w1) \<Rightarrow> Some (Panic, record_call E (AddFileCall b f [] Panic) w1)
         | Some (Returns u, w1) \<Rightarrow>
             Some (Returns r, record_call E (AddFileCall b f evs (Returns r)) w1)))"

definition addFile ::
  "env \<Rightarrow> File \<Rightarrow> ipfsAdder \<Rightarrow> world \<Rightarrow> (error option flow \<times> world) option" where
  "addFile E fs b w =
     (let r = NextFile E fs (fpos w);
          w1 = record_call E (NextFileCall fs r) (w\<lparr>fpos := Suc (fpos w)\<rparr>)
      in case r of
           Inl err \<Rightarrow> Some (Returns (Some err), w1)
         | Inr f \<Rightarrow>
             (case callAddFile E b f w1 of
                None \<Rightarrow> None
              | Some (res, w2) \<Rightarrow> Some (res, record_call E (CloseCall f) w2)))"

text \<open>
  The \<open>for\<close> loop of \<open>FromFiles\<close>.  It returns \<open>None\<close> for the jump to \<open>FINALIZE\<close> and
  \<open>Some err\<close> for the \<open>return nil, err\<close> of the loop body.
\<close>

partial_function (option) add_loop ::
  "env \<Rightarrow> File \<Rightarrow> ipfsAdder \<Rightarrow> world \<Rightarrow> (error option flow \<times> world) option" where
  "add_loop E f b w0 =
     (let w = observe Select w0 in
      case ctx (adder w) of
        None \<Rightarrow> Some (Panic, w)
      | Some (Some e) \<Rightarrow> Some (Returns (Some (ContextError e)), w)
      | Some None \<Rightarrow>
          (case addFile E f b w of
             None \<Rightarrow> None
           | Some (Panic, w') \<Rightarrow> Some (Panic, w')
           | Some (Returns (Some err), w') \<Rightarrow>
               if err = EOF then Some (Returns None, w') else Some (Returns (Some err), w')
           | Some (Returns None, w') \<Rightarrow> add_loop E f b w'))"

declare add_loop.simps [code]

subsection \<open>FromFiles\<close>

text \<open>
  \<open>strings.ToLower\<close> on the bytes of a string: the letters \<open>A\<close> to \<open>Z\<close> go to lower
  case.  (Go also maps the upper-case letters beyond ASCII; such a byte is left as it is
  here.)
\<close>

definition toLower_byte :: "char \<Rightarrow> char" where
  "toLower_byte c =
     (if 65 \<le> (of_char c :: nat) \<and> (of_char c :: nat) \<le> 90
      then char_of (of_char c + (32 :: nat)) else c)"

definition ToLower :: "string \<Rightarrow> string" where
  "ToLower s = map toLower_byte s"

text \<open>
  The part of \<open>FromFiles\<close> after the label \<open>FINALIZE\<close> (lines 150 to 161): the
  builder's \<open>Finalize\<close>, which may still send events, then the cluster DAG service's.
\<close>

definition finalize ::
  "env \<Rightarrow> ipfsAdder \<Rightarrow> world \<Rightarrow> ((Cid option \<times> error option) flow \<times> world) option" where
  "finalize E b w =
     (case Finalize E (calls w) (token w) b of (evs, r) \<Rightarrow>
        (case emit evs w of
           None \<Rightarrow> None
         | Some (Panic, w1) \<Rightarrow> Some (Panic, record_call E (FinalizeCall b [] Panic) w1)
         | Some (Returns u, w1) \<Rightarrow>
             (let w2 = record_call E (FinalizeCall b evs (Returns r)) w1 in
              case r of
                Inl err \<Rightarrow> Some (Returns (None, Some err), w2)
              | Inr adderRoot \<Rightarrow>
                  (let r2 = dgsFinalize E (dgs (adder w2)) (calls w2) (token w2) adderRoot;
                       w3 = record_call E
                              (ClusterFinalizeCall (dgs (adder w2)) adderRoot r2) w2
                   in case r2 of
                        Inl err \<Rightarrow> Some (Returns (None, Some err), w3)
                      | Inr clusterRoot \<Rightarrow> Some (Returns (Some clusterRoot, None), w3)))))"

text \<open>
  Lines 106 to 148, and the jump to \<open>FINALIZE\<close>: the builder is made and configured, the
  prefix is set up, the loop runs.
\<close>

definition run ::
  "env \<Rightarrow> File \<Rightarrow> world \<Rightarrow> ((Cid option \<times> error option) flow \<times> world) option" where
  "run E f w0 =
     (let r = NewAdder E (calls w0) (token w0) (dgs (adder w0));
          w = record_call E (NewAdderCall (dgs (adder w0)) r) w0
      in case r of
           Some err \<Rightarrow> Some (Returns (None, Some err), w)
         | None \<Rightarrow>
             (let p = params (adder w);
                  ipfsAdder = \<lparr>Hidden = AddParams.Hidden p,
                               Trickle = (Layout p = ''trickle''),
                               RawLeaves = AddParams.RawLeaves p,
                               Wrap = AddParams.Wrap p,
                               Chunker = AddParams.Chunker p,
                               Progress = AddParams.Progress p,
                               CidBuilder = None\<rparr>
              in case PrefixForCidVersion E (CidVersion p) of
                   Inl err \<Rightarrow>
                     Some (Returns (None,
                             Some (ErrorString (''bad CID Version: '' @ Error err))), w)
                 | Inr prefix \<Rightarrow>
                     (case Names E (ToLower (HashFun p)) of
                        None \<Rightarrow>
                          Some (Returns (None,
                                  Some (ErrorString
                                          (''unrecognized hash function: '' @ HashFun p))), w)
                      | Some hashFunCode \<Rightarrow>
                          (let ipfsAdder = ipfsAdder
                                 \<lparr>CidBuilder :=
                                    Some (prefix\<lparr>MhType := hashFunCode, MhLength := - 1\<rparr>)\<rparr>
                           in case add_loop E f ipfsAdder w of
                                None \<Rightarrow> None
                              | Some (Panic, w') \<Rightarrow> Some (Panic, w')
                              | Some (Returns (Some err), w') \<Rightarrow>
                                  Some (Returns (None, Some err), w')
                              | Some (Returns None, w') \<Rightarrow> finalize E ipfsAdder w'))))"

text \<open>
  The two deferred calls, last registered first: \<open>close(a.output)\<close>, which panics on a
  channel that is closed already, then \<open>a.cancel()\<close>, which runs in either case.
\<close>

definition deferred :: "'a flow \<Rightarrow> world \<Rightarrow> 'a flow \<times> world" where
  "deferred r w =
     (let a = adder w in
      if closed (output_chan a) then (Panic, w\<lparr>adder := cancel a\<rparr>)
      else (r, w\<lparr>adder := cancel (a\<lparr>output_chan := (output_chan a)\<lparr>closed := True\<rparr>\<rparr>)\<rparr>))"

text \<open>
  \<open>FromFiles\<close>: the context is stored, the guard of line 99 returns the context's error,
  and only then are the deferred calls registered.  A \<open>nil\<close> context cannot be asked for
  its error; the case is there because the type has it.
\<close>

definition FromFiles ::
  "env \<Rightarrow> Context \<Rightarrow> File \<Rightarrow> world \<Rightarrow> ((Cid option \<times> error option) flow \<times> world) option"
  where
  "FromFiles E c f w0 =
     (let w = w0\<lparr>adder := setContext c (adder w0)\<rparr> in
      case ctx (adder w) of
        None \<Rightarrow> Some (Panic, w)
      | Some (Some e) \<Rightarrow> Some (Returns (None, Some (ContextError e)), w)
      | Some None \<Rightarrow>
          (case run E f w of
             None \<Rightarrow> None
           | Some (r, w') \<Rightarrow> Some (deferred r w')))"

text \<open>
  \<open>FromMultipart\<close> wraps the reader, defers the wrapper's \<open>Close\<close> and delegates.  The
  deferred call runs once \<open>FromFiles\<close> has ended, and the result stays what it was.
\<close>

definition FromMultipart ::
  "env \<Rightarrow> Context \<Rightarrow> nat \<Rightarrow> world \<Rightarrow> ((Cid option \<times> error option) flow \<times> world) option"
  where
  "FromMultipart E c r w =
     (let f = MultipartFile ''multipart/form-data'' r in
      case FromFiles E c f w of
        None \<Rightarrow> None
      | Some (res, w') \<Rightarrow> Some (res, record_call E (CloseCall f) w'))"

text \<open>A new adder in a world where nothing has happened yet.\<close>

definition fresh :: "Adder \<Rightarrow> world" where
  "fresh a = \<lparr>adder = a, calls = [], fpos = 0\<rparr>"

subsection \<open>Reading traces\<close>

text \<open>The world once the builder's events are on the channel.\<close>

definition put :: "AddedOutput list \<Rightarrow> world \<Rightarrow> world" where
  "put evs w =
     w\<lparr>adder := (adder w)\<lparr>output_chan :=
          (output_chan (adder w))\<lparr>sent := sent (output_chan (adder w)) @ evs\<rparr>\<rparr>\<rparr>"

text \<open>The builder as \<open>FromFiles\<close> has configured it when the loop starts.\<close>

definition configured :: "AddParams \<Rightarrow> Prefix \<Rightarrow> 64 word \<Rightarrow> ipfsAdder" where
  "configured p prefix hashFunCode =
     \<lparr>Hidden = AddParams.Hidden p,
      Trickle = (Layout p = ''trickle''),
      RawLeaves = AddParams.RawLeaves p,
      Wrap = AddParams.Wrap p,
      Chunker = AddParams.Chunker p,
      Progress = AddParams.Progress p,
      CidBuilder = Some (prefix\<lparr>MhType := hashFunCode, MhLength := - 1\<rparr>)\<rparr>"

text \<open>What a run leaves alone: the parameters, the service, the receiving side of the
  channel and whether it is closed; a context that is set stays set.\<close>

definition frame :: "world \<Rightarrow> world \<Rightarrow> bool" where
  "frame w w' \<longleftrightarrow>
     params (adder w') = params (adder w) \<and> dgs (adder w') = dgs (adder w) \<and>
     closed (output_chan (adder w')) = closed (output_chan (adder w)) \<and>
     taker (output_chan (adder w')) = taker (output_chan (adder w)) \<and>
     capacity (output_chan (adder w')) = capacity (output_chan (adder w)) \<and>
     (ctx (adder w) \<noteq> None \<longrightarrow> ctx (adder w') \<noteq> None) \<and>
     (\<forall>e. ctx (adder w) = Some (Some e) \<longrightarrow> ctx (adder w') = Some (Some e)) \<and>
     fpos w \<le> fpos w'"

text \<open>Two worlds that differ at most in the output channel.\<close>

definition same_but_queue :: "world \<Rightarrow> world \<Rightarrow> bool" where
  "same_but_queue w1 w2 \<longleftrightarrow>
     ctx (adder w1) = ctx (adder w2) \<and> dgs (adder w1) = dgs (adder w2) \<and>
     params (adder w1) = params (adder w2) \<and> calls w1 = calls w2 \<and> fpos w1 = fpos w2"

text \<open>A channel that is open and whose receiver takes every event.\<close>

definition drained :: "world \<Rightarrow> bool" where
  "drained w \<longleftrightarrow>
     taker (output_chan (adder w)) = Drain \<and> \<not> closed (output_chan (adder w))"

text \<open>The entries of the loop: the check, the pull, the add with the builder \<open>b\<close>, the
  close of the file pulled.\<close>

fun loop_entry :: "ipfsAdder \<Rightarrow> call \<Rightarrow> bool" where
  "loop_entry b Select = True"
| "loop_entry b (NextFileCall f r) = True"
| "loop_entry b (AddFileCall b' x evs r) = (b' = b)"
| "loop_entry b (CloseCall x) = True"
| "loop_entry b c = False"

text \<open>A step that failed: a pull or an add that returned an error other than \<open>io.EOF\<close>,
  or the builder's \<open>Finalize\<close> returning an error.\<close>

fun failed :: "call \<Rightarrow> bool" where
  "failed (NextFileCall f (Inl e)) = (e \<noteq> EOF)"
| "failed (AddFileCall b x evs (Returns (Some e))) = (e \<noteq> EOF)"
| "failed (FinalizeCall b evs (Returns (Inl e))) = True"
| "failed c = False"

fun is_ClusterFinalize :: "call \<Rightarrow> bool" where
  "is_ClusterFinalize (ClusterFinalizeCall d root r) = True"
| "is_ClusterFinalize c = False"

fun is_Finalize :: "call \<Rightarrow> bool" where
  "is_Finalize (FinalizeCall b evs r) = True"
| "is_Finalize c = False"

fun is_NextFile :: "call \<Rightarrow> bool" where
  "is_NextFile (NextFileCall f r) = True"
| "is_NextFile c = False"

text \<open>
  Every pull comes right after a check, and both find the context live: a trace is
  \<open>checked\<close> when each \<open>NextFileCall\<close> in it is stamped live and directly preceded by
  a \<open>Select\<close> that is stamped live.
\<close>

fun checked :: "trace \<Rightarrow> bool" where
  "checked [] = True"
| "checked ((s, Select) # (s', NextFileCall f r) # tr) = (s = None \<and> s' = None \<and> checked tr)"
| "checked ((s, NextFileCall f r) # tr) = False"
| "checked (x # tr) = checked tr"

text \<open>The builder a call was made on.\<close>

fun builder_of :: "call \<Rightarrow> ipfsAdder option" where
  "builder_of (AddFileCall b x evs r) = Some b"
| "builder_of (FinalizeCall b evs r) = Some b"
| "builder_of c = None"

text \<open>The answers of the file source, the files handed to the builder and the events
  the builder sent, each in the order of the trace.\<close>

fun pulls :: "trace \<Rightarrow> (error + File) list" where
  "pulls [] = []"
| "pulls ((s, NextFileCall f r) # tr) = r # pulls tr"
| "pulls (x # tr) = pulls tr"

fun added :: "trace \<Rightarrow> File list" where
  "added [] = []"
| "added ((s, AddFileCall b x evs r) # tr) = x # added tr"
| "added (x # tr) = added tr"

fun events :: "trace \<Rightarrow> AddedOutput list" where
  "events [] = []"
| "events ((s, AddFileCall b x evs r) # tr) = evs @ events tr"
| "events ((s, FinalizeCall b evs r) # tr) = evs @ events tr"
| "events (x # tr) = events tr"

subsection \<open>A concrete run\<close>

text \<open>
  The end-to-end example of the specification: a source that yields \<open>a.txt\<close> and
  \<open>b.txt\<close>, a builder that reports one event for each file, a cluster DAG service
  whose \<open>Finalize\<close> returns its input, and the two registered identifier versions.
\<close>

definition example_env :: env where
  "example_env =
     \<lparr>cancelAt = (\<lambda>n. None),
      NextFile = (\<lambda>f k. if k = 0 then Inr (NamedFile ''a.txt'')
                         else if k = 1 then Inr (NamedFile ''b.txt'') else Inl EOF),
      NewAdder = (\<lambda>tr c d. None),
      AddFile = (\<lambda>tr c b f.
                   ([\<lparr>Name = (case f of NamedFile n \<Rightarrow> n | MultipartFile m r \<Rightarrow> m),
                      Hash = ''Qm'', Size = 5\<rparr>], None)),
      Finalize = (\<lambda>tr c b. ([], Inr ''root'')),
      dgsFinalize = (\<lambda>d tr c root. Inr root),
      PrefixForCidVersion =
        (\<lambda>v. if v = 0 then Inr \<lparr>Version = 0, Codec = 112, MhType = 18, MhLength = - 1\<rparr>
              else if v = 1 then Inr \<lparr>Version = 1, Codec = 112, MhType = 18, MhLength = - 1\<rparr>
              else Inl (ErrorString ''unknown CID version'')),
      Names = (\<lambda>s. if s = ''sha2-256'' then Some 18
                    else if s = ''sha2-512'' then Some 19 else None)\<rparr>"

definition example_params :: AddParams where
  "example_params =
     \<lparr>AddParams.Hidden = False, Layout = ''balanced'', AddParams.RawLeaves = False,
      AddParams.Wrap = False, AddParams.Chunker = ''size-262144'',
      AddParams.Progress = True, CidVersion = 1, HashFun = ''SHA2-512''\<rparr>"

definition example_source :: File where
  "example_source = NamedFile ''dir''"

definition example_start :: world where
  "example_start = fresh (New 0 example_params None)"

text \<open>The world after one run of the example.\<close>

definition spent :: world where
  "spent = (case FromFiles example_env None example_source example_start of
              Some (r, w) \<Rightarrow> w | None \<Rightarrow> example_start)"

text \<open>The world after a first call whose caller's context was cancelled before the call.\<close>

definition refused :: world where
  "refused = example_start\<lparr>adder := setContext (Some Canceled) (adder example_start)\<rparr>"

text \<open>The same source, failing on its second item.\<close>

definition failing_env :: env where
  "failing_env =
     example_env\<lparr>NextFile := (\<lambda>f k. if k = 0 then Inr (NamedFile ''a.txt'')
                                     else Inl (ErrorString ''unexpected EOF''))\<rparr>"

definition failed_end :: world where
  "failed_end = (case FromFiles failing_env None example_source example_start of
                   Some (r, w) \<Rightarrow> w | None \<Rightarrow> example_start)"

text \<open>Parameters that name no registered hash function, or no identifier version.\<close>

definition bad_hash_start :: world where
  "bad_hash_start = fresh (New 0 (example_params\<lparr>HashFun := ''whirlpool''\<rparr>) None)"

definition bad_hash_end :: world where
  "bad_hash_end = (case FromFiles example_env None example_source bad_hash_start of
                     Some (r, w) \<Rightarrow> w | None \<Rightarrow> bad_hash_start)"

definition bad_version_start :: world where
  "bad_version_start = fresh (New 0 (example_params\<lparr>CidVersion := 2\<rparr>) None)"

definition bad_version_end :: world where
  "bad_version_end = (case FromFiles example_env None example_source bad_version_start of
                        Some (r, w) \<Rightarrow> w | None \<Rightarrow> bad_version_start)"

text \<open>
  An empty source, and a caller whose context is cancelled while the source is asked
  for its first file: entry number 2 of the trace, after the construction of the builder
  and the first check.
\<close>

definition late_cancel_env :: env where
  "late_cancel_env =
     example_env\<lparr>cancelAt := (\<lambda>n. if n = 2 then Some Canceled else None),
                 NextFile := (\<lambda>f k. Inl EOF)\<rparr>"

definition late_cancel_end :: world where
  "late_cancel_end = (case FromFiles late_cancel_env None example_source example_start of
                        Some (r, w) \<Rightarrow> w | None \<Rightarrow> example_start)"

text \<open>
  The example, with the caller's context cancelled while the first file is added: entry
  number 3 of the trace.
\<close>

definition mid_cancel_env :: env where
  "mid_cancel_env = example_env\<lparr>cancelAt := (\<lambda>n. if n = 3 then Some Canceled else None)\<rparr>"

definition mid_cancel_end :: world where
  "mid_cancel_end = (case FromFiles mid_cancel_env None example_source example_start of
                       Some (r, w) \<Rightarrow> w | None \<Rightarrow> example_start)"

text \<open>An unbuffered channel of the caller's, with a listener that takes every event.\<close>

definition listener_queue :: chan where
  "listener_queue = \<lparr>capacity = 0, sent = [], closed = False, taker = Drain\<rparr>"

definition listener_start :: world where
  "listener_start = example_start\<lparr>adder := New 0 example_params (Some listener_queue)\<rparr>"

section \<open>Basic facts\<close>

lemma sends_Returns:
  "sends c evs = Some (Returns u, c') \<Longrightarrow> c' = c\<lparr>sent := sent c @ evs\<rparr>"
  by (induction c evs rule: sends.induct) (auto split: if_splits)

lemma sends_Panic:
  "sends c evs = Some (Panic, c') \<Longrightarrow> c' = c \<and> closed c"
  by (induction c evs rule: sends.induct) (auto split: if_splits)

lemma sends_Drain:
  "taker c = Drain \<Longrightarrow> sends c evs \<noteq> None"
  by (induction c evs rule: sends.induct) (auto simp: room_def)

lemma sends_Drain_open:
  "taker c = Drain \<Longrightarrow> \<not> closed c \<Longrightarrow>
   sends c evs = Some (Returns (), c\<lparr>sent := sent c @ evs\<rparr>)"
  by (induction c evs rule: sends.induct) (auto simp: room_def)

lemma token_simps [simp]:
  "token (observe c w) = token w"
  "token (w\<lparr>fpos := k\<rparr>) = token w"
  "token (w\<lparr>calls := tr\<rparr>) = token w"
  "token (put evs w) = token w"
  by (simp_all add: token_def observe_def put_def)

lemma observe_simps [simp]:
  "adder (observe c w) = adder w"
  "calls (observe c w) = calls w @ [(token w, c)]"
  "fpos (observe c w) = fpos w"
  by (simp_all add: observe_def)

lemma record_call_simps [simp]:
  "adder (record_call E c w) = arrive (cancelAt E (length (calls w))) (adder w)"
  "calls (record_call E c w) = calls w @ [(token w, c)]"
  "fpos (record_call E c w) = fpos w"
  by (simp_all add: record_call_def)

lemma put_simps [simp]:
  "calls (put evs w) = calls w"
  "fpos (put evs w) = fpos w"
  "ctx (adder (put evs w)) = ctx (adder w)"
  "params (adder (put evs w)) = params (adder w)"
  "dgs (adder (put evs w)) = dgs (adder w)"
  "sent (output_chan (adder (put evs w))) = sent (output_chan (adder w)) @ evs"
  "closed (output_chan (adder (put evs w))) = closed (output_chan (adder w))"
  "taker (output_chan (adder (put evs w))) = taker (output_chan (adder w))"
  "capacity (output_chan (adder (put evs w))) = capacity (output_chan (adder w))"
  by (simp_all add: put_def)

lemma arrive_simps [simp]:
  "params (arrive e a) = params a"
  "dgs (arrive e a) = dgs a"
  "output_chan (arrive e a) = output_chan a"
  by (simp_all add: arrive_def split: option.splits)

lemma ctx_arrive:
  "ctx (arrive e a) = (case ctx a of Some None \<Rightarrow> Some e | x \<Rightarrow> x)"
  by (simp add: arrive_def split: option.splits)

lemma ctx_arrive_simps [simp]:
  "ctx a = None \<Longrightarrow> ctx (arrive e a) = None"
  "ctx a = Some (Some x) \<Longrightarrow> ctx (arrive e a) = Some (Some x)"
  "ctx a = Some None \<Longrightarrow> ctx (arrive e a) = Some e"
  "ctx (arrive None a) = ctx a"
  by (simp_all add: ctx_arrive split: option.splits)

lemma cancel_simps [simp]:
  "params (cancel a) = params a"
  "dgs (cancel a) = dgs a"
  "output_chan (cancel a) = output_chan a"
  by (simp_all add: cancel_def split: option.splits)

lemma ctx_cancel:
  "ctx (cancel a) = (case ctx a of Some None \<Rightarrow> Some (Some Canceled) | x \<Rightarrow> x)"
  by (simp add: cancel_def split: option.splits)

lemma emit_cases:
  assumes "emit evs w = Some (r, w1)"
  shows "(r = Panic \<and> w1 = w \<and> closed (output_chan (adder w)))
       \<or> (r = Returns () \<and> w1 = put evs w)"
proof (cases r)
  case (Returns u)
  with assms show ?thesis
    by (auto simp: emit_def put_def split: option.splits dest!: sends_Returns)
next
  case Panic
  with assms show ?thesis
    by (auto simp: emit_def split: option.splits dest!: sends_Panic)
qed

lemma emit_Drain:
  "taker (output_chan (adder w)) = Drain \<Longrightarrow> emit evs w \<noteq> None"
  using sends_Drain [of "output_chan (adder w)" evs]
  by (auto simp: emit_def split: option.splits)

lemma emit_Drain_open:
  "taker (output_chan (adder w)) = Drain \<Longrightarrow> \<not> closed (output_chan (adder w)) \<Longrightarrow>
   emit evs w = Some (Returns (), put evs w)"
  using sends_Drain_open [of "output_chan (adder w)" evs]
  by (simp add: emit_def put_def)

subsection \<open>The frame\<close>

lemma frame_refl [simp]: "frame w w"
  by (simp add: frame_def)

lemma frame_trans: "frame w w1 \<Longrightarrow> frame w1 w2 \<Longrightarrow> frame w w2"
  by (auto simp: frame_def)

lemma frame_observe [simp]: "frame w (observe c w)"
  by (simp add: frame_def)

lemma frame_put [simp]: "frame w (put evs w)"
  by (simp add: frame_def)

lemma frame_record_call [simp]: "frame w (record_call E c w)"
  by (auto simp: frame_def ctx_arrive split: option.splits)

lemma frame_fpos [simp]: "frame w (w\<lparr>fpos := Suc (fpos w)\<rparr>)"
  by (simp add: frame_def)

lemma callAddFile_cases [consumes 1, case_names panicked returned]:
  assumes "callAddFile E b x w = Some (r, w')"
  obtains
    (panicked) "r = Panic" "closed (output_chan (adder w))"
               "w' = record_call E (AddFileCall b x [] Panic) w"
  | (returned) evs res where "AddFile E (calls w) (token w) b x = (evs, res)"
               "r = Returns res"
               "w' = record_call E (AddFileCall b x evs (Returns res)) (put evs w)"
proof -
  obtain evs res where a: "AddFile E (calls w) (token w) b x = (evs, res)"
    by (cases "AddFile E (calls w) (token w) b x")
  from assms a obtain u w1 where e: "emit evs w = Some (u, w1)"
    by (auto simp: callAddFile_def split: option.splits)
  from emit_cases [OF e] show thesis
  proof (elim disjE conjE)
    assume "u = Panic" "w1 = w" "closed (output_chan (adder w))"
    with assms a e show thesis by (intro panicked) (auto simp: callAddFile_def)
  next
    assume "u = Returns ()" "w1 = put evs w"
    with assms a e show thesis by (intro returned [of evs res]) (auto simp: callAddFile_def)
  qed
qed

lemma addFile_cases [consumes 1, case_names failed panicked added]:
  assumes "addFile E fs b w = Some (r, w')"
  obtains
    (failed) err where "NextFile E fs (fpos w) = Inl err" "r = Returns (Some err)"
      "w' = record_call E (NextFileCall fs (Inl err)) (w\<lparr>fpos := Suc (fpos w)\<rparr>)"
  | (panicked) x w1 where "NextFile E fs (fpos w) = Inr x" "r = Panic"
      "w1 = record_call E (NextFileCall fs (Inr x)) (w\<lparr>fpos := Suc (fpos w)\<rparr>)"
      "closed (output_chan (adder w))"
      "w' = record_call E (CloseCall x) (record_call E (AddFileCall b x [] Panic) w1)"
  | (added) x w1 evs res where "NextFile E fs (fpos w) = Inr x"
      "w1 = record_call E (NextFileCall fs (Inr x)) (w\<lparr>fpos := Suc (fpos w)\<rparr>)"
      "AddFile E (calls w1) (token w1) b x = (evs, res)" "r = Returns res"
      "w' = record_call E (CloseCall x)
              (record_call E (AddFileCall b x evs (Returns res)) (put evs w1))"
proof (cases "NextFile E fs (fpos w)")
  case (Inl err)
  with assms show thesis by (intro failed [of err]) (auto simp: addFile_def Let_def)
next
  case (Inr x)
  define w1 where "w1 = record_call E (NextFileCall fs (Inr x)) (w\<lparr>fpos := Suc (fpos w)\<rparr>)"
  from assms Inr obtain w2 where c: "callAddFile E b x w1 = Some (r, w2)"
    and w': "w' = record_call E (CloseCall x) w2"
    by (auto simp: addFile_def Let_def w1_def split: option.splits)
  from c show thesis
  proof (cases rule: callAddFile_cases)
    case panicked
    with Inr w' show ?thesis by (intro that(2) [of x w1]) (auto simp: w1_def)
  next
    case (returned evs res)
    with Inr w' show ?thesis by (intro that(3) [of x w1 evs res]) (auto simp: w1_def)
  qed
qed

lemma frame_steps:
  "frame w w1 \<Longrightarrow> frame w (record_call E c w1)"
  "frame w w1 \<Longrightarrow> frame w (put evs w1)"
  "frame w w1 \<Longrightarrow> frame w (observe c w1)"
  "frame w w1 \<Longrightarrow> frame w (w1\<lparr>fpos := Suc (fpos w1)\<rparr>)"
  by (auto simp: frame_def ctx_arrive split: option.splits)

lemma addFile_frame: "addFile E fs b w = Some (r, w') \<Longrightarrow> frame w w'"
  by (erule addFile_cases) (auto intro!: frame_steps)

lemma add_loop_induct [consumes 1, case_names nil cancelled panic error step]:
  assumes run: "add_loop E f b w0 = Some res"
    and nil: "\<And>w0. ctx (adder w0) = None \<Longrightarrow> P w0 (Panic, observe Select w0)"
    and cancelled: "\<And>w0 e. ctx (adder w0) = Some (Some e) \<Longrightarrow>
                      P w0 (Returns (Some (ContextError e)), observe Select w0)"
    and panic: "\<And>w0 w'. ctx (adder w0) = Some None \<Longrightarrow>
                  addFile E f b (observe Select w0) = Some (Panic, w') \<Longrightarrow> P w0 (Panic, w')"
    and error: "\<And>w0 w' err. ctx (adder w0) = Some None \<Longrightarrow>
                  addFile E f b (observe Select w0) = Some (Returns (Some err), w') \<Longrightarrow>
                  P w0 (Returns (if err = EOF then None else Some err), w')"
    and step: "\<And>w0 w' res. ctx (adder w0) = Some None \<Longrightarrow>
                  addFile E f b (observe Select w0) = Some (Returns None, w') \<Longrightarrow>
                  add_loop E f b w' = Some res \<Longrightarrow> P w' res \<Longrightarrow> P w0 res"
  shows "P w0 res"
proof -
  have "E' = E \<longrightarrow> f' = f \<longrightarrow> b' = b \<longrightarrow> add_loop E f b w = Some res \<longrightarrow> P w res"
    if "add_loop E' f' b' w = Some res" for E' f' b' w res
    apply (rule add_loop.raw_induct
             [where P = "\<lambda>E' f' b' w res.
                 E' = E \<longrightarrow> f' = f \<longrightarrow> b' = b \<longrightarrow> add_loop E f b w = Some res \<longrightarrow> P w res",
              OF _ that])
    subgoal premises prems for loop E' f' b' w res
    proof (intro impI)
      assume eqs: "E' = E" "f' = f" "b' = b" and full: "add_loop E f b w = Some res"
      from full have unf:
        "(let w1 = observe Select w in
          case ctx (adder w1) of
            None \<Rightarrow> Some (Panic, w1)
          | Some (Some e) \<Rightarrow> Some (Returns (Some (ContextError e)), w1)
          | Some None \<Rightarrow>
              (case addFile E f b w1 of
                 None \<Rightarrow> None
               | Some (Panic, w') \<Rightarrow> Some (Panic, w')
               | Some (Returns (Some err), w') \<Rightarrow>
                   if err = EOF then Some (Returns None, w') else Some (Returns (Some err), w')
               | Some (Returns None, w') \<Rightarrow> add_loop E f b w')) = Some res"
        by (subst (asm) add_loop.simps) simp
      show "P w res"
      proof (cases "ctx (adder w)")
        case None
        with unf nil show ?thesis by (auto simp: Let_def)
      next
        case (Some c)
        show ?thesis
        proof (cases c)
          case (Some e)
          with unf \<open>ctx (adder w) = Some c\<close> cancelled show ?thesis by (auto simp: Let_def)
        next
          case None
          with \<open>ctx (adder w) = Some c\<close> have live: "ctx (adder w) = Some None" by simp
          show ?thesis
          proof (cases "addFile E f b (observe Select w)")
            case None
            with unf live show ?thesis by (simp add: Let_def)
          next
            case (Some rw)
            obtain r w' where rw: "rw = (r, w')" by (cases rw)
            show ?thesis
            proof (cases r)
              case Panic
              with unf live Some rw panic[OF live] show ?thesis
                by (auto simp: Let_def)
            next
              case (Returns x)
              show ?thesis
              proof (cases x)
                case (Some err)
                with unf live \<open>addFile E f b (observe Select w) = Some rw\<close> rw Returns
                  error[OF live]
                show ?thesis by (auto simp: Let_def split: if_splits)
              next
                case None
                with unf live \<open>addFile E f b (observe Select w) = Some rw\<close> rw Returns
                have a: "add_loop E f b w' = Some res" by (simp add: Let_def)
                from prems(2) eqs live \<open>addFile E f b (observe Select w) = Some rw\<close> rw
                  Returns None
                have "loop E f b w' = Some res" by (simp add: Let_def)
                with prems(1) a have "P w' res" by blast
                with step[OF live _ a] \<open>addFile E f b (observe Select w) = Some rw\<close> rw
                  Returns None
                show ?thesis by auto
              qed
            qed
          qed
        qed
      qed
    qed
    done
  with run show ?thesis by blast
qed

lemma add_loop_frame: "add_loop E f b w = Some (r, w') \<Longrightarrow> frame w w'"
proof (induction w "(r, w')" rule: add_loop_induct)
  case (step w0 w1)
  from step(2) have "frame (observe Select w0) w1" by (rule addFile_frame)
  with frame_observe [of w0 Select] step(4) show ?case by (blast intro: frame_trans)
qed (auto intro: frame_trans [OF frame_observe] dest: addFile_frame)

lemma finalize_cases [consumes 1, case_names panicked failed cluster]:
  assumes "finalize E b w = Some (r, w')"
  obtains
    (panicked) "r = Panic" "closed (output_chan (adder w))"
      "w' = record_call E (FinalizeCall b [] Panic) w"
  | (failed) evs err where "Finalize E (calls w) (token w) b = (evs, Inl err)"
      "r = Returns (None, Some err)"
      "w' = record_call E (FinalizeCall b evs (Returns (Inl err))) (put evs w)"
  | (cluster) evs root w2 r2 where "Finalize E (calls w) (token w) b = (evs, Inr root)"
      "w2 = record_call E (FinalizeCall b evs (Returns (Inr root))) (put evs w)"
      "r2 = dgsFinalize E (dgs (adder w2)) (calls w2) (token w2) root"
      "w' = record_call E (ClusterFinalizeCall (dgs (adder w2)) root r2) w2"
      "r = (case r2 of Inl err \<Rightarrow> Returns (None, Some err)
                     | Inr clusterRoot \<Rightarrow> Returns (Some clusterRoot, None))"
proof -
  obtain evs res where a: "Finalize E (calls w) (token w) b = (evs, res)"
    by (cases "Finalize E (calls w) (token w) b")
  from assms a obtain u w1 where e: "emit evs w = Some (u, w1)"
    by (auto simp: finalize_def split: option.splits)
  from emit_cases [OF e] show thesis
  proof (elim disjE conjE)
    assume "u = Panic" "w1 = w" "closed (output_chan (adder w))"
    with assms a e show thesis by (intro panicked) (auto simp: finalize_def)
  next
    assume u: "u = Returns ()" "w1 = put evs w"
    show thesis
    proof (cases res)
      case (Inl err)
      with assms a e u show ?thesis
        by (intro failed [of evs err]) (auto simp: finalize_def Let_def)
    next
      case (Inr root)
      with assms a e u show ?thesis
        by (intro cluster [of evs root]) (auto simp: finalize_def Let_def split: sum.splits)
    qed
  qed
qed

lemma finalize_frame: "finalize E b w = Some (r, w') \<Longrightarrow> frame w w'"
  by (erule finalize_cases) (auto intro!: frame_steps)

lemma ctx_setContext:
  "ctx (setContext c a) = (case ctx a of None \<Rightarrow> Some c | Some x \<Rightarrow> Some x)"
  by (simp add: setContext_def split: option.splits)

lemma setContext_simps [simp]:
  "params (setContext c a) = params a"
  "dgs (setContext c a) = dgs a"
  "output_chan (setContext c a) = output_chan a"
  "ctx (setContext c a) \<noteq> None"
  by (simp_all add: setContext_def split: option.splits)

lemma run_cases [consumes 1, case_names new_failed bad_version bad_hash looped]:
  assumes "run E f w0 = Some (r, w')"
  obtains
    (new_failed) err where "NewAdder E (calls w0) (token w0) (dgs (adder w0)) = Some err"
      "r = Returns (None, Some err)"
      "w' = record_call E (NewAdderCall (dgs (adder w0)) (Some err)) w0"
  | (bad_version) err where "NewAdder E (calls w0) (token w0) (dgs (adder w0)) = None"
      "PrefixForCidVersion E (CidVersion (params (adder w0))) = Inl err"
      "r = Returns (None, Some (ErrorString (''bad CID Version: '' @ Error err)))"
      "w' = record_call E (NewAdderCall (dgs (adder w0)) None) w0"
  | (bad_hash) prefix where "NewAdder E (calls w0) (token w0) (dgs (adder w0)) = None"
      "PrefixForCidVersion E (CidVersion (params (adder w0))) = Inr prefix"
      "Names E (ToLower (HashFun (params (adder w0)))) = None"
      "r = Returns (None, Some (ErrorString (''unrecognized hash function: ''
                                   @ HashFun (params (adder w0)))))"
      "w' = record_call E (NewAdderCall (dgs (adder w0)) None) w0"
  | (looped) prefix code lr w1 where "NewAdder E (calls w0) (token w0) (dgs (adder w0)) = None"
      "PrefixForCidVersion E (CidVersion (params (adder w0))) = Inr prefix"
      "Names E (ToLower (HashFun (params (adder w0)))) = Some code"
      "add_loop E f (configured (params (adder w0)) prefix code)
         (record_call E (NewAdderCall (dgs (adder w0)) None) w0) = Some (lr, w1)"
      "(lr = Panic \<and> r = Panic \<and> w' = w1) \<or>
       (\<exists>err. lr = Returns (Some err) \<and> r = Returns (None, Some err) \<and> w' = w1) \<or>
       (lr = Returns None \<and>
        finalize E (configured (params (adder w0)) prefix code) w1 = Some (r, w'))"
proof (cases "NewAdder E (calls w0) (token w0) (dgs (adder w0))")
  case (Some err)
  with assms show ?thesis by (intro new_failed [of err]) (auto simp: run_def Let_def)
next
  case None
  note na = this
  show ?thesis
  proof (cases "PrefixForCidVersion E (CidVersion (params (adder w0)))")
    case (Inl err)
    with assms na show ?thesis by (intro bad_version [of err]) (auto simp: run_def Let_def)
  next
    case (Inr prefix)
    note pf = this
    show ?thesis
    proof (cases "Names E (ToLower (HashFun (params (adder w0))))")
      case None
      with assms na pf show ?thesis by (intro bad_hash [of prefix]) (auto simp: run_def Let_def)
    next
      case (Some code)
      with assms na pf obtain lr w1 where
        l: "add_loop E f (configured (params (adder w0)) prefix code)
              (record_call E (NewAdderCall (dgs (adder w0)) None) w0) = Some (lr, w1)"
        by (auto simp: run_def Let_def configured_def split: option.splits)
      with assms na pf Some show ?thesis
        by (intro looped [of prefix code lr w1])
           (auto simp: run_def Let_def configured_def split: option.splits flow.splits)
    qed
  qed
qed

lemma run_frame: "run E f w = Some (r, w') \<Longrightarrow> frame w w'"
proof (erule run_cases, goal_cases)
  case (4 prefix code lr w1)
  from 4(4) have "frame (record_call E (NewAdderCall (dgs (adder w)) None) w) w1"
    by (rule add_loop_frame)
  then have "frame w w1" by (blast intro: frame_trans frame_record_call)
  with 4(5) show ?case by (auto dest: finalize_frame intro: frame_trans)
qed (auto intro!: frame_steps)

lemma FromFiles_cases [consumes 1, case_names guard ran]:
  assumes "FromFiles E c f w0 = Some (r, w')"
  obtains
    (guard) e where "ctx (setContext c (adder w0)) = Some (Some e)"
      "r = Returns (None, Some (ContextError e))" "w' = w0\<lparr>adder := setContext c (adder w0)\<rparr>"
  | (ran) r1 w1 where "ctx (setContext c (adder w0)) = Some None"
      "run E f (w0\<lparr>adder := setContext c (adder w0)\<rparr>) = Some (r1, w1)"
      "(r, w') = deferred r1 w1"
  using assms
  by (auto simp: FromFiles_def Let_def split: option.splits)

lemma deferred_ctx:
  "ctx (adder w) \<noteq> None \<Longrightarrow> \<exists>x. ctx (adder (snd (deferred r w))) = Some (Some x)"
  by (auto simp: deferred_def Let_def ctx_cancel split: option.splits)

lemma FromFiles_spent:
  assumes "FromFiles E c f w0 = Some (r, w1)"
  shows "\<exists>x. ctx (adder w1) = Some (Some x)"
  using assms
proof (cases rule: FromFiles_cases)
  case (guard e)
  then show ?thesis by simp
next
  case (ran r1 w1')
  from ran(2) have "frame (w0\<lparr>adder := setContext c (adder w0)\<rparr>) w1'" by (rule run_frame)
  with ran(1) have "ctx (adder w1') \<noteq> None" by (simp add: frame_def)
  from deferred_ctx [OF this, of r1] ran(3) show ?thesis by (metis snd_conv)
qed

lemma FromFiles_on_spent:
  assumes "ctx (adder w) = Some (Some x)"
  shows "FromFiles E c f w = Some (Returns (None, Some (ContextError x)), w)"
  using assms by (simp add: FromFiles_def Let_def setContext_def)

lemma record_call_on_spent:
  assumes "ctx (adder w) = Some (Some x)"
  shows "record_call E k w = w\<lparr>calls := calls w @ [(Some x, k)]\<rparr>"
  using assms by (simp add: record_call_def arrive_def token_def)

lemma deferred_simps [simp]:
  "params (adder (snd (deferred r w))) = params (adder w)"
  "dgs (adder (snd (deferred r w))) = dgs (adder w)"
  "closed (output_chan (adder (snd (deferred r w))))"
  "calls (snd (deferred r w)) = calls w"
  "fpos (snd (deferred r w)) = fpos w"
  "sent (output_chan (adder (snd (deferred r w)))) = sent (output_chan (adder w))"
  "taker (output_chan (adder (snd (deferred r w)))) = taker (output_chan (adder w))"
  by (simp_all add: deferred_def Let_def)

lemma fst_deferred:
  "fst (deferred r w) = (if closed (output_chan (adder w)) then Panic else r)"
  by (simp add: deferred_def Let_def)

lemma FromFiles_params:
  assumes "FromFiles E c f w = Some (r, w')"
  shows "params (adder w') = params (adder w)"
  using assms
proof (cases rule: FromFiles_cases)
  case (guard e)
  then show ?thesis by simp
next
  case (ran r1 w1)
  from run_frame [OF ran(2)] have "params (adder w1) = params (adder w)"
    by (simp add: frame_def)
  moreover from ran(3) have "w' = snd (deferred r1 w1)" by (metis snd_conv)
  ultimately show ?thesis by simp
qed

lemma addFile_entries:
  assumes "addFile E fs b w = Some (r, w')"
  shows "\<exists>new. calls w' = calls w @ new \<and> (\<forall>e\<in>set new. loop_entry b (snd e)) \<and>
           (r = Returns None \<or> r = Returns (Some EOF) \<longrightarrow> (\<forall>e\<in>set new. \<not> failed (snd e)))"
  using assms by (cases rule: addFile_cases) auto

lemma add_loop_entries:
  assumes "add_loop E f b w = Some (r, w')"
  shows "\<exists>new. calls w' = calls w @ new \<and> (\<forall>e\<in>set new. loop_entry b (snd e)) \<and>
           (r = Returns None \<longrightarrow> (\<forall>e\<in>set new. \<not> failed (snd e)))"
  using assms
proof (induction w "(r, w')" rule: add_loop_induct)
  case (panic w0)
  from addFile_entries [OF panic(2)] panic show ?case by auto
next
  case (error w0 err)
  from addFile_entries [OF error(2)] error(3) show ?case by (auto split: if_splits)
next
  case (step w0 w1)
  from addFile_entries [OF step(2)] obtain n1 where
    n1: "calls w1 = calls (observe Select w0) @ n1" "\<forall>e\<in>set n1. loop_entry b (snd e)"
        "\<forall>e\<in>set n1. \<not> failed (snd e)" by auto
  from step(4) obtain n2 where
    n2: "calls w' = calls w1 @ n2" "\<forall>e\<in>set n2. loop_entry b (snd e)"
        "r = Returns None \<longrightarrow> (\<forall>e\<in>set n2. \<not> failed (snd e))" by auto
  from n1 n2 show ?case
    by (intro exI [of _ "(token w0, Select) # n1 @ n2"]) auto
qed auto

lemma loop_entry_not_final:
  "loop_entry b k \<Longrightarrow> \<not> is_ClusterFinalize k \<and> \<not> is_Finalize k"
  by (cases k) auto

lemma run_entries:
  assumes "run E f w = Some (r, w')"
  shows "\<exists>new. calls w' = calls w @ new \<and>
     ((\<forall>e\<in>set new. \<not> is_ClusterFinalize (snd e)) \<or>
      (\<exists>pre s b evs s' d root res.
          new = pre @ [(s, FinalizeCall b evs (Returns (Inr root))),
                       (s', ClusterFinalizeCall d root res)] \<and>
          (\<forall>e\<in>set pre. \<not> is_ClusterFinalize (snd e) \<and> \<not> failed (snd e) \<and>
                        \<not> is_Finalize (snd e)))) \<and>
     ((\<exists>e\<in>set new. failed (snd e)) \<longrightarrow>
        (\<forall>e\<in>set new. \<not> is_ClusterFinalize (snd e)) \<and>
        (r = Panic \<or> (\<exists>err. r = Returns (None, Some err))))"
  using assms
proof (cases rule: run_cases)
  case (looped prefix code lr w1)
  define b where "b = configured (params (adder w)) prefix code"
  define wn where "wn = record_call E (NewAdderCall (dgs (adder w)) None) w"
  from add_loop_entries [OF looped(4)] obtain nl where
    nl: "calls w1 = calls wn @ nl" "\<forall>e\<in>set nl. loop_entry b (snd e)"
        "lr = Returns None \<longrightarrow> (\<forall>e\<in>set nl. \<not> failed (snd e))"
    by (auto simp: b_def wn_def)
  from nl(2) have nf: "\<forall>e\<in>set nl. \<not> is_ClusterFinalize (snd e) \<and> \<not> is_Finalize (snd e)"
    by (blast dest: loop_entry_not_final)
  let ?pre = "(token w, NewAdderCall (dgs (adder w)) None) # nl"
  have pre: "calls w1 = calls w @ ?pre" using nl(1) by (simp add: wn_def)
  from looped(5) consider
      (stop) "r = Panic \<or> (\<exists>err. r = Returns (None, Some err))" "w' = w1"
    | (fin) "lr = Returns None" "finalize E b w1 = Some (r, w')"
    by (auto simp: b_def)
  then show ?thesis
  proof cases
    case stop
    with pre nf show ?thesis by (intro exI [of _ ?pre]) auto
  next
    case fin
    with nl(3) have ok: "\<forall>e\<in>set ?pre. \<not> failed (snd e)" by simp
    from fin(2) show ?thesis
    proof (cases rule: finalize_cases)
      case panicked
      with pre nf ok show ?thesis
        by (intro exI [of _ "?pre @ [(token w1, FinalizeCall b [] Panic)]"]) auto
    next
      case (failed evs err)
      with pre nf show ?thesis
        by (intro exI [of _ "?pre @ [(token w1, FinalizeCall b evs (Returns (Inl err)))]"])
           auto
    next
      case (cluster evs root w2 r2)
      let ?fin = "[(token w1, FinalizeCall b evs (Returns (Inr root))),
                   (token w2, ClusterFinalizeCall (dgs (adder w2)) root r2)]"
      from cluster pre have c: "calls w' = calls w @ (?pre @ ?fin)" by simp
      have shape: "\<exists>pre s b evs s' d root res.
          ?pre @ ?fin = pre @ [(s, FinalizeCall b evs (Returns (Inr root))),
                       (s', ClusterFinalizeCall d root res)] \<and>
          (\<forall>e\<in>set pre. \<not> is_ClusterFinalize (snd e) \<and> \<not> failed (snd e) \<and>
                        \<not> is_Finalize (snd e))"
        using nf ok by (intro exI [of _ ?pre]) auto
      have nofail: "\<not> (\<exists>e\<in>set (?pre @ ?fin). failed (snd e))"
        using ok by auto
      from c shape nofail show ?thesis by blast
    qed
  qed
qed auto

lemma token_setContext:
  "ctx (setContext c (adder w0)) = Some None \<Longrightarrow>
   token (w0\<lparr>adder := setContext c (adder w0)\<rparr>) = None"
  by (simp add: token_def)

lemma loop_entry_builder:
  "loop_entry b k \<Longrightarrow> builder_of k = Some b' \<Longrightarrow> b' = b"
  by (cases k) auto

lemma run_builder:
  assumes "run E f w = Some (r, w')"
    and "PrefixForCidVersion E (CidVersion (params (adder w))) = Inr prefix"
    and "Names E (ToLower (HashFun (params (adder w)))) = Some code"
  shows "\<exists>new. calls w' = calls w @ new \<and>
           (\<forall>e\<in>set new. \<forall>b. builder_of (snd e) = Some b \<longrightarrow>
               b = configured (params (adder w)) prefix code)"
  using assms(1)
proof (cases rule: run_cases)
  case (looped prefix' code' lr w1)
  with assms(2,3) have eq: "prefix' = prefix" "code' = code" by simp_all
  define b where "b = configured (params (adder w)) prefix code"
  define wn where "wn = record_call E (NewAdderCall (dgs (adder w)) None) w"
  from add_loop_entries [OF looped(4)] eq obtain nl where
    nl: "calls w1 = calls wn @ nl" "\<forall>e\<in>set nl. loop_entry b (snd e)"
    by (auto simp: b_def wn_def)
  let ?pre = "(token w, NewAdderCall (dgs (adder w)) None) # nl"
  have pre: "calls w1 = calls w @ ?pre" using nl(1) by (simp add: wn_def)
  have ok: "\<forall>e\<in>set ?pre. \<forall>b'. builder_of (snd e) = Some b' \<longrightarrow> b' = b"
    using nl(2) by (auto dest: loop_entry_builder)
  from looped(5) eq consider
      (stop) "w' = w1" | (fin) "finalize E b w1 = Some (r, w')"
    by (auto simp: b_def)
  then show ?thesis
  proof cases
    case stop
    with pre ok show ?thesis unfolding b_def by (intro exI [of _ ?pre]) simp
  next
    case fin
    then show ?thesis
    proof (cases rule: finalize_cases)
      case panicked
      with pre ok show ?thesis unfolding b_def [symmetric]
        by (intro exI [of _ "?pre @ [(token w1, FinalizeCall b [] Panic)]"]) auto
    next
      case (failed evs err)
      with pre ok show ?thesis unfolding b_def [symmetric]
        by (intro exI [of _ "?pre @ [(token w1, FinalizeCall b evs (Returns (Inl err)))]"])
           auto
    next
      case (cluster evs root w2 r2)
      with pre ok show ?thesis unfolding b_def [symmetric]
        by (intro exI [of _ "?pre @ [(token w1, FinalizeCall b evs (Returns (Inr root))),
                   (token w2, ClusterFinalizeCall (dgs (adder w2)) root r2)]"]) auto
    qed
  qed
qed (use assms(2,3) in auto)

lemma FromFiles_of_run:
  assumes "ctx (setContext c (adder w0)) = Some None"
    and "run E f (w0\<lparr>adder := setContext c (adder w0)\<rparr>) = Some (R, w1)"
    and "\<not> closed (output_chan (adder w1))"
  shows "FromFiles E c f w0 = Some (R, snd (deferred R w1))"
proof -
  have "fst (deferred R w1) = R" using assms(3) by (simp only: fst_deferred if_False)
  then have "deferred R w1 = (R, snd (deferred R w1))" by (simp add: prod_eq_iff)
  with assms(1,2) show ?thesis by (simp add: FromFiles_def Let_def)
qed

lemma checked_no_pull:
  "\<forall>e\<in>set b. \<not> is_NextFile (snd e) \<Longrightarrow> checked b"
  by (induction b rule: checked.induct) auto

lemma checked_Select_no_pull:
  "\<forall>e\<in>set b. \<not> is_NextFile (snd e) \<Longrightarrow> checked ((v, Select) # b)"
  using checked_no_pull [of "(v, Select) # b"] by simp

lemma checked_append:
  "checked a \<Longrightarrow> \<forall>e\<in>set b. \<not> is_NextFile (snd e) \<Longrightarrow> checked (a @ b)"
proof (induction a rule: checked.induct)
  case 1
  then show ?case by (simp add: checked_no_pull)
qed (auto simp: checked_Select_no_pull)

lemma addFile_checked:
  assumes "addFile E fs b w = Some (r, w')" and "token w = None"
  shows "\<exists>n s r1. calls w' = calls w @ (None, NextFileCall fs r1) # n \<and>
           (\<forall>e\<in>set n. snd e \<noteq> Select \<and> \<not> is_NextFile (snd e))"
  using assms by (cases rule: addFile_cases) auto

lemma add_loop_checks:
  assumes "add_loop E f b w = Some (r, w')"
  shows "\<exists>new. calls w' = calls w @ new \<and> checked new \<and>
           (\<forall>x. (Some x, Select) \<in> set new \<longrightarrow>
                r = Returns (Some (ContextError x)) \<and>
                (\<exists>pre. new = pre @ [(Some x, Select)] \<and> (\<forall>y. (Some y, Select) \<notin> set pre)))"
  using assms
proof (induction w "(r, w')" rule: add_loop_induct)
  case (nil w0)
  then show ?case by (auto simp: token_def)
next
  case (cancelled w0 e)
  then show ?case by (auto simp: token_def)
next
  case (panic w0)
  then have t: "token (observe Select w0) = None" by (simp add: token_def)
  from addFile_checked [OF panic(2) t] obtain n r1 where
    n: "calls w' = calls w0 @ (None, Select) # (None, NextFileCall f r1) # n"
       "\<forall>e\<in>set n. snd e \<noteq> Select \<and> \<not> is_NextFile (snd e)"
    using panic(1) by (auto simp: token_def)
  from n(2) have "checked n" by (simp add: checked_no_pull)
  with n show ?case
    by (intro exI [of _ "(None, Select) # (None, NextFileCall f r1) # n"]) auto
next
  case (error w0 err)
  then have t: "token (observe Select w0) = None" by (simp add: token_def)
  from addFile_checked [OF error(2) t] obtain n r1 where
    n: "calls w' = calls w0 @ (None, Select) # (None, NextFileCall f r1) # n"
       "\<forall>e\<in>set n. snd e \<noteq> Select \<and> \<not> is_NextFile (snd e)"
    using error(1) by (auto simp: token_def)
  from n(2) have "checked n" by (simp add: checked_no_pull)
  with n show ?case
    by (intro exI [of _ "(None, Select) # (None, NextFileCall f r1) # n"]) auto
next
  case (step w0 w1)
  then have t: "token (observe Select w0) = None" by (simp add: token_def)
  from addFile_checked [OF step(2) t] obtain n r1 where
    n: "calls w1 = calls w0 @ (None, Select) # (None, NextFileCall f r1) # n"
       "\<forall>e\<in>set n. snd e \<noteq> Select \<and> \<not> is_NextFile (snd e)"
    using step(1) by (auto simp: token_def)
  from step(4) obtain n2 where
    n2: "calls w' = calls w1 @ n2" "checked n2"
        "\<forall>x. (Some x, Select) \<in> set n2 \<longrightarrow>
                r = Returns (Some (ContextError x)) \<and>
                (\<exists>pre. n2 = pre @ [(Some x, Select)] \<and> (\<forall>y. (Some y, Select) \<notin> set pre))"
    by auto
  let ?it = "(None, Select) # (None, NextFileCall f r1) # n"
  have c: "checked (?it @ n2)"
  proof -
    have "checked (?it @ n2) = checked (n @ n2)" by simp
    moreover have "checked (n @ n2)" using n(2) n2(2)
    proof (induction n)
      case Nil
      then show ?case by simp
    next
      case (Cons a n)
      obtain s k where a: "a = (s, k)" by (cases a)
      with Cons show ?case by (cases k) auto
    qed
    ultimately show ?thesis by simp
  qed
  have sel: "\<forall>x. (Some x, Select) \<in> set (?it @ n2) \<longrightarrow>
                r = Returns (Some (ContextError x)) \<and>
                (\<exists>pre. ?it @ n2 = pre @ [(Some x, Select)] \<and>
                       (\<forall>y. (Some y, Select) \<notin> set pre))"
  proof (intro allI impI)
    fix x assume "(Some x, Select) \<in> set (?it @ n2)"
    with n(2) have "(Some x, Select) \<in> set n2" by auto
    with n2(3) obtain pre where
      p: "r = Returns (Some (ContextError x))" "n2 = pre @ [(Some x, Select)]"
         "\<forall>y. (Some y, Select) \<notin> set pre" by blast
    from p(3) n(2) have "\<forall>y. (Some y, Select) \<notin> set (?it @ pre)" by auto
    with p(1,2) show "r = Returns (Some (ContextError x)) \<and>
                (\<exists>pre. ?it @ n2 = pre @ [(Some x, Select)] \<and>
                       (\<forall>y. (Some y, Select) \<notin> set pre))"
      by (intro conjI exI [of _ "?it @ pre"]) simp_all
  qed
  from n(1) n2(1) c sel show ?case
    by (intro exI [of _ "?it @ n2"]) simp
qed

lemma run_checks:
  assumes "run E f w = Some (r, w')"
  shows "\<exists>new. calls w' = calls w @ new \<and> checked new \<and>
           (\<forall>x. (Some x, Select) \<in> set new \<longrightarrow>
                r = Returns (None, Some (ContextError x)) \<and>
                (\<exists>pre. new = pre @ [(Some x, Select)] \<and> (\<forall>y. (Some y, Select) \<notin> set pre)) \<and>
                (\<forall>e\<in>set new. \<not> is_Finalize (snd e) \<and> \<not> is_ClusterFinalize (snd e)))"
  using assms
proof (cases rule: run_cases)
  case (looped prefix code lr w1)
  define b where "b = configured (params (adder w)) prefix code"
  define wn where "wn = record_call E (NewAdderCall (dgs (adder w)) None) w"
  let ?na = "(token w, NewAdderCall (dgs (adder w)) None)"
  from add_loop_checks [OF looped(4)] obtain nl where
    nl: "calls w1 = calls wn @ nl" "checked nl"
        "\<forall>x. (Some x, Select) \<in> set nl \<longrightarrow>
                lr = Returns (Some (ContextError x)) \<and>
                (\<exists>pre. nl = pre @ [(Some x, Select)] \<and> (\<forall>y. (Some y, Select) \<notin> set pre))"
    by (auto simp: wn_def)
  from add_loop_entries [OF looped(4)] nl(1) have
    le: "\<forall>e\<in>set nl. loop_entry b (snd e)"
    by (auto simp: b_def wn_def)
  then have nf: "\<forall>e\<in>set nl. \<not> is_ClusterFinalize (snd e) \<and> \<not> is_Finalize (snd e)"
    by (blast dest: loop_entry_not_final)
  have pre: "calls w1 = calls w @ ?na # nl" using nl(1) by (simp add: wn_def)
  have ck: "checked (?na # nl)" using nl(2) by simp
  from looped(5) consider
      (panic) "lr = Panic" "r = Panic" "w' = w1"
    | (err) err where "lr = Returns (Some err)" "r = Returns (None, Some err)" "w' = w1"
    | (fin) "lr = Returns None" "finalize E b w1 = Some (r, w')"
    by (auto simp: b_def)
  then show ?thesis
  proof cases
    case panic
    with nl(3) have "\<forall>x. (Some x, Select) \<notin> set (?na # nl)" by auto
    with pre ck panic show ?thesis by (intro exI [of _ "?na # nl"]) simp
  next
    case (err e)
    have "\<forall>x. (Some x, Select) \<in> set (?na # nl) \<longrightarrow>
                r = Returns (None, Some (ContextError x)) \<and>
                (\<exists>pre. ?na # nl = pre @ [(Some x, Select)] \<and>
                       (\<forall>y. (Some y, Select) \<notin> set pre)) \<and>
                (\<forall>e\<in>set (?na # nl). \<not> is_Finalize (snd e) \<and> \<not> is_ClusterFinalize (snd e))"
    proof (intro allI impI)
      fix x assume "(Some x, Select) \<in> set (?na # nl)"
      then have "(Some x, Select) \<in> set nl" by simp
      with nl(3) obtain p where
        p: "lr = Returns (Some (ContextError x))" "nl = p @ [(Some x, Select)]"
           "\<forall>y. (Some y, Select) \<notin> set p" by blast
      from p(1) err have "r = Returns (None, Some (ContextError x))" by simp
      moreover from p(2,3) have "?na # nl = (?na # p) @ [(Some x, Select)] \<and>
          (\<forall>y. (Some y, Select) \<notin> set (?na # p))" by simp
      then have "\<exists>pre. ?na # nl = pre @ [(Some x, Select)] \<and>
                       (\<forall>y. (Some y, Select) \<notin> set pre)" by blast
      moreover from nf
      have "\<forall>e\<in>set (?na # nl). \<not> is_Finalize (snd e) \<and> \<not> is_ClusterFinalize (snd e)"
        by simp
      ultimately show "r = Returns (None, Some (ContextError x)) \<and>
                (\<exists>pre. ?na # nl = pre @ [(Some x, Select)] \<and>
                       (\<forall>y. (Some y, Select) \<notin> set pre)) \<and>
                (\<forall>e\<in>set (?na # nl). \<not> is_Finalize (snd e) \<and> \<not> is_ClusterFinalize (snd e))"
        by blast
    qed
    with pre ck err show ?thesis by (intro exI [of _ "?na # nl"]) simp
  next
    case fin
    with nl(3) have ns: "\<forall>x. (Some x, Select) \<notin> set (?na # nl)" by auto
    from fin(2) obtain fn where
      fn: "calls w' = calls w1 @ fn" "\<forall>e\<in>set fn. \<not> is_NextFile (snd e) \<and> snd e \<noteq> Select"
      by (cases rule: finalize_cases) auto
    from ck fn(2) have "checked ((?na # nl) @ fn)" by (intro checked_append) auto
    moreover from ns fn(2) have "\<forall>x. (Some x, Select) \<notin> set ((?na # nl) @ fn)" by auto
    ultimately show ?thesis using pre fn(1)
      by (intro exI [of _ "(?na # nl) @ fn"]) simp
  qed
qed auto

lemma pulls_append [simp]: "pulls (a @ b) = pulls a @ pulls b"
  by (induction a rule: pulls.induct) auto

lemma added_append [simp]: "added (a @ b) = added a @ added b"
  by (induction a rule: added.induct) auto

lemma events_append [simp]: "events (a @ b) = events a @ events b"
  by (induction a rule: events.induct) auto

lemma addFile_order:
  assumes "addFile E fs b w = Some (r, w')"
  shows "\<exists>new. calls w' = calls w @ new \<and> pulls new = [NextFile E fs (fpos w)] \<and>
           fpos w' = Suc (fpos w) \<and>
           map Inr (added new) = filter (Not \<circ> isl) (pulls new) \<and>
           sent (output_chan (adder w')) = sent (output_chan (adder w)) @ events new \<and>
           (\<forall>err. NextFile E fs (fpos w) = Inl err \<longrightarrow> r = Returns (Some err))"
  using assms by (cases rule: addFile_cases) auto

lemma add_loop_order:
  assumes "add_loop E f b w = Some (r, w')"
  shows "\<exists>new. calls w' = calls w @ new \<and> fpos w \<le> fpos w' \<and>
           pulls new = map (NextFile E f) [fpos w ..< fpos w'] \<and>
           map Inr (added new) = filter (Not \<circ> isl) (pulls new) \<and>
           sent (output_chan (adder w')) = sent (output_chan (adder w)) @ events new \<and>
           (Inl EOF \<in> set (pulls new) \<longrightarrow> r = Returns None)"
  using assms
proof (induction w "(r, w')" rule: add_loop_induct)
  case (nil w0)
  then show ?case by auto
next
  case (cancelled w0 e)
  then show ?case by auto
next
  case (panic w0)
  from addFile_order [OF panic(2)] obtain n where
    n: "calls w' = calls w0 @ (token w0, Select) # n" "pulls n = [NextFile E f (fpos w0)]"
       "fpos w' = Suc (fpos w0)" "map Inr (added n) = filter (Not \<circ> isl) (pulls n)"
       "sent (output_chan (adder w')) = sent (output_chan (adder w0)) @ events n"
       "\<forall>err. NextFile E f (fpos w0) = Inl err \<longrightarrow> Panic = Returns (Some err)"
    by auto
  from n(6) have "Inl EOF \<noteq> NextFile E f (fpos w0)" by (metis flow.distinct(1))
  with n(1-5) show ?case
    by (intro exI [of _ "(token w0, Select) # n"]) auto
next
  case (error w0 err)
  from addFile_order [OF error(2)] obtain n where
    n: "calls w' = calls w0 @ (token w0, Select) # n" "pulls n = [NextFile E f (fpos w0)]"
       "fpos w' = Suc (fpos w0)" "map Inr (added n) = filter (Not \<circ> isl) (pulls n)"
       "sent (output_chan (adder w')) = sent (output_chan (adder w0)) @ events n"
       "\<forall>e. NextFile E f (fpos w0) = Inl e \<longrightarrow> Returns (Some err) = Returns (Some e)"
    by auto
  from n(6) have "Inl EOF = NextFile E f (fpos w0) \<longrightarrow> err = EOF" by auto
  with n(1-5) error(3) show ?case
    by (intro exI [of _ "(token w0, Select) # n"]) auto
next
  case (step w0 w1)
  from addFile_order [OF step(2)] obtain n where
    n: "calls w1 = calls w0 @ (token w0, Select) # n" "pulls n = [NextFile E f (fpos w0)]"
       "fpos w1 = Suc (fpos w0)" "map Inr (added n) = filter (Not \<circ> isl) (pulls n)"
       "sent (output_chan (adder w1)) = sent (output_chan (adder w0)) @ events n"
       "\<forall>e. NextFile E f (fpos w0) = Inl e \<longrightarrow> Returns None = Returns (Some e)"
    by auto
  from step(4) obtain n2 where
    n2: "calls w' = calls w1 @ n2" "fpos w1 \<le> fpos w'"
        "pulls n2 = map (NextFile E f) [fpos w1 ..< fpos w']"
        "map Inr (added n2) = filter (Not \<circ> isl) (pulls n2)"
        "sent (output_chan (adder w')) = sent (output_chan (adder w1)) @ events n2"
        "Inl EOF \<in> set (pulls n2) \<longrightarrow> r = Returns None"
    by auto
  from n(3) n2(2) have lt: "fpos w0 < fpos w'" by simp
  then have upt: "[fpos w0 ..< fpos w'] = fpos w0 # [Suc (fpos w0) ..< fpos w']"
    by (rule upt_conv_Cons)
  from n(6) have notEOF: "Inl EOF \<noteq> NextFile E f (fpos w0)" by (metis flow.inject option.distinct(1))
  let ?new = "(token w0, Select) # n @ n2"
  have "calls w' = calls w0 @ ?new" using n(1) n2(1) by simp
  moreover have "fpos w0 \<le> fpos w'" using lt by simp
  moreover have "pulls ?new = map (NextFile E f) [fpos w0 ..< fpos w']"
    using n(2,3) n2(3) upt by simp
  moreover have "map Inr (added ?new) = filter (Not \<circ> isl) (pulls ?new)"
    using n(4) n2(4) by simp
  moreover have "sent (output_chan (adder w')) = sent (output_chan (adder w0)) @ events ?new"
    using n(5) n2(5) by simp
  moreover have "Inl EOF \<in> set (pulls ?new) \<longrightarrow> r = Returns None"
    using n(2) n2(6) notEOF by auto
  ultimately show ?case by blast
qed

lemma finalize_order:
  assumes "finalize E b w = Some (r, w')"
  shows "\<exists>new. calls w' = calls w @ new \<and> fpos w' = fpos w \<and> pulls new = [] \<and>
           added new = [] \<and> (\<exists>e\<in>set new. is_Finalize (snd e)) \<and>
           sent (output_chan (adder w')) = sent (output_chan (adder w)) @ events new"
  using assms by (cases rule: finalize_cases) auto

lemma run_order:
  assumes "run E f w = Some (r, w')"
  shows "\<exists>new. calls w' = calls w @ new \<and> fpos w \<le> fpos w' \<and>
           pulls new = map (NextFile E f) [fpos w ..< fpos w'] \<and>
           map Inr (added new) = filter (Not \<circ> isl) (pulls new) \<and>
           sent (output_chan (adder w')) = sent (output_chan (adder w)) @ events new \<and>
           (Inl EOF \<in> set (pulls new) \<longrightarrow> (\<exists>e\<in>set new. is_Finalize (snd e)))"
  using assms
proof (cases rule: run_cases)
  case (looped prefix code lr w1)
  define b where "b = configured (params (adder w)) prefix code"
  let ?na = "(token w, NewAdderCall (dgs (adder w)) None)"
  from add_loop_order [OF looped(4)] obtain nl where
    nl: "calls w1 = calls w @ ?na # nl" "fpos w \<le> fpos w1"
        "pulls nl = map (NextFile E f) [fpos w ..< fpos w1]"
        "map Inr (added nl) = filter (Not \<circ> isl) (pulls nl)"
        "sent (output_chan (adder w1)) = sent (output_chan (adder w)) @ events nl"
        "Inl EOF \<in> set (pulls nl) \<longrightarrow> lr = Returns None"
    by auto
  from looped(5) consider
      (stop) "lr \<noteq> Returns None" "w' = w1"
    | (fin) "lr = Returns None" "finalize E b w1 = Some (r, w')"
    by (auto simp: b_def)
  then show ?thesis
  proof cases
    case stop
    with nl show ?thesis by (intro exI [of _ "?na # nl"]) auto
  next
    case fin
    from finalize_order [OF fin(2)] obtain fn where
      fn: "calls w' = calls w1 @ fn" "fpos w' = fpos w1" "pulls fn = []" "added fn = []"
          "\<exists>e\<in>set fn. is_Finalize (snd e)"
          "sent (output_chan (adder w')) = sent (output_chan (adder w1)) @ events fn"
      by auto
    with nl show ?thesis by (intro exI [of _ "(?na # nl) @ fn"]) auto
  qed
qed auto

lemma addFile_returns:
  assumes "taker (output_chan (adder w)) = Drain"
  shows "addFile E fs b w \<noteq> None"
proof (cases "NextFile E fs (fpos w)")
  case (Inl err)
  then show ?thesis by (simp add: addFile_def Let_def)
next
  case (Inr x)
  let ?w1 = "record_call E (NextFileCall fs (Inr x)) (w\<lparr>fpos := Suc (fpos w)\<rparr>)"
  obtain evs res where a: "AddFile E (calls ?w1) (token ?w1) b x = (evs, res)"
    by (cases "AddFile E (calls ?w1) (token ?w1) b x")
  have "taker (output_chan (adder ?w1)) = Drain" using assms by simp
  from emit_Drain [OF this, of evs] obtain u w2 where "emit evs ?w1 = Some (u, w2)"
    by auto
  with a have "callAddFile E b x ?w1 \<noteq> None"
    by (cases u) (simp_all add: callAddFile_def)
  with Inr show ?thesis by (auto simp: addFile_def Let_def)
qed

lemma add_loop_returns:
  assumes "NextFile E f k = Inl err" and "fpos w \<le> k"
    and "taker (output_chan (adder w)) = Drain"
  shows "add_loop E f b w \<noteq> None"
  using assms(2,3)
proof (induction "k - fpos w" arbitrary: w rule: less_induct)
  case less
  let ?w = "observe Select w"
  have d: "taker (output_chan (adder ?w)) = Drain" using less.prems(2) by simp
  from addFile_returns [OF d, of E f b] obtain r w1 where
    a: "addFile E f b ?w = Some (r, w1)" by auto
  show ?case
  proof (cases "r = Returns None")
    case False
    with a show ?thesis
      by (subst add_loop.simps)
         (auto simp: Let_def split: option.splits flow.splits)
  next
    case True
    from addFile_order [OF a] True
    have f1: "fpos w1 = Suc (fpos w)" and ne: "NextFile E f (fpos w) \<noteq> Inl err"
      by auto
    from ne assms(1) less.prems(1) have lt: "fpos w < k" by (cases "fpos w = k") auto
    from addFile_frame [OF a] d have d1: "taker (output_chan (adder w1)) = Drain"
      by (simp add: frame_def)
    from lt f1 have "k - fpos w1 < k - fpos w" "fpos w1 \<le> k" by simp_all
    from less.hyps [OF this(1) this(2) d1] have "add_loop E f b w1 \<noteq> None" .
    with a True show ?thesis
      by (subst add_loop.simps)
         (auto simp: Let_def split: option.splits flow.splits)
  qed
qed

lemma finalize_returns:
  assumes "taker (output_chan (adder w)) = Drain"
  shows "finalize E b w \<noteq> None"
proof -
  obtain evs res where a: "Finalize E (calls w) (token w) b = (evs, res)"
    by (cases "Finalize E (calls w) (token w) b")
  from emit_Drain [OF assms, of evs] obtain u w2 where "emit evs w = Some (u, w2)"
    by auto
  with a show ?thesis
    by (cases u) (auto simp: finalize_def Let_def split: sum.splits)
qed

lemma run_returns:
  assumes "NextFile E f k = Inl err" and "fpos w \<le> k"
    and "taker (output_chan (adder w)) = Drain"
  shows "run E f w \<noteq> None"
proof (cases "NewAdder E (calls w) (token w) (dgs (adder w))")
  case (Some e)
  then show ?thesis by (simp add: run_def Let_def)
next
  case None
  note na = this
  let ?w = "record_call E (NewAdderCall (dgs (adder w)) None) w"
  have p: "fpos ?w \<le> k" "taker (output_chan (adder ?w)) = Drain"
    using assms(2,3) by simp_all
  show ?thesis
  proof (cases "PrefixForCidVersion E (CidVersion (params (adder w)))")
    case (Inl e)
    with na show ?thesis by (simp add: run_def Let_def)
  next
    case (Inr prefix)
    note pf = this
    show ?thesis
    proof (cases "Names E (ToLower (HashFun (params (adder w))))")
      case None
      with na pf show ?thesis by (simp add: run_def Let_def)
    next
      case (Some code)
      let ?b = "configured (params (adder w)) prefix code"
      from add_loop_returns [OF assms(1) p, of ?b] obtain lr w1 where
        l: "add_loop E f ?b ?w = Some (lr, w1)" by auto
      from add_loop_frame [OF l] p(2) have "taker (output_chan (adder w1)) = Drain"
        by (simp add: frame_def)
      then have "finalize E ?b w1 \<noteq> None" by (rule finalize_returns)
      with na pf Some l show ?thesis
        by (auto simp: run_def Let_def configured_def split: flow.splits option.splits)
    qed
  qed
qed

lemma FromFiles_returns:
  assumes "NextFile E f k = Inl err" and "fpos w \<le> k"
    and "taker (output_chan (adder w)) = Drain"
  shows "FromFiles E c f w \<noteq> None"
  using run_returns [OF assms(1), of "w\<lparr>adder := setContext c (adder w)\<rparr>"] assms(2,3)
  by (auto simp: FromFiles_def Let_def split: option.splits)

lemma same_but_queue_steps:
  "same_but_queue w1 w2 \<Longrightarrow> same_but_queue (record_call E k w1) (record_call E k w2)"
  "same_but_queue w1 w2 \<Longrightarrow> same_but_queue (observe k w1) (observe k w2)"
  "same_but_queue w1 w2 \<Longrightarrow> same_but_queue (put evs w1) (put evs' w2)"
  "same_but_queue w1 w2 \<Longrightarrow>
     same_but_queue (w1\<lparr>fpos := Suc (fpos w1)\<rparr>) (w2\<lparr>fpos := Suc (fpos w2)\<rparr>)"
  by (auto simp: same_but_queue_def token_def arrive_def split: option.splits)

lemma drained_steps:
  "drained w \<Longrightarrow> drained (record_call E k w)"
  "drained w \<Longrightarrow> drained (observe k w)"
  "drained w \<Longrightarrow> drained (put evs w)"
  "drained w \<Longrightarrow> drained (w\<lparr>fpos := n\<rparr>)"
  by (simp_all add: drained_def)

lemma addFile_sim:
  assumes "addFile E fs b w1 = Some (Returns x, w1')"
    and "same_but_queue w1 w2" and "drained w2"
  shows "\<exists>w2'. addFile E fs b w2 = Some (Returns x, w2') \<and> same_but_queue w1' w2' \<and> drained w2'"
  using assms(1)
proof (cases rule: addFile_cases)
  case (failed err)
  let ?w2' = "record_call E (NextFileCall fs (Inl err)) (w2\<lparr>fpos := Suc (fpos w2)\<rparr>)"
  from assms(2) have fp: "fpos w2 = fpos w1" by (simp add: same_but_queue_def)
  with failed have "addFile E fs b w2 = Some (Returns x, ?w2')"
    by (simp add: addFile_def Let_def)
  moreover have "same_but_queue w1' ?w2'" using failed(3) assms(2)
    by (simp add: same_but_queue_steps)
  moreover have "drained ?w2'" using assms(3) by (simp add: drained_steps)
  ultimately show ?thesis by blast
next
  case (panicked y w1a)
  then show ?thesis by simp
next
  case (added y w1a evs res)
  from assms(2) have fp: "fpos w2 = fpos w1" by (simp add: same_but_queue_def)
  let ?w2a = "record_call E (NextFileCall fs (Inr y)) (w2\<lparr>fpos := Suc (fpos w2)\<rparr>)"
  let ?w2' = "record_call E (CloseCall y)
              (record_call E (AddFileCall b y evs (Returns res)) (put evs ?w2a))"
  have s: "same_but_queue w1a ?w2a" using added(2) assms(2)
    by (simp add: same_but_queue_steps)
  have d: "drained ?w2a" using assms(3) by (simp add: drained_steps)
  from s have "calls ?w2a = calls w1a" "token ?w2a = token w1a"
    by (simp_all add: same_but_queue_def token_def)
  with added(3) have a: "AddFile E (calls ?w2a) (token ?w2a) b y = (evs, res)" by simp
  from d have "emit evs ?w2a = Some (Returns (), put evs ?w2a)"
    by (simp add: drained_def emit_Drain_open)
  with a have "callAddFile E b y ?w2a
      = Some (Returns res, record_call E (AddFileCall b y evs (Returns res)) (put evs ?w2a))"
    by (simp add: callAddFile_def)
  with added(1,4) fp have "addFile E fs b w2 = Some (Returns x, ?w2')"
    by (simp add: addFile_def Let_def)
  moreover have "same_but_queue w1' ?w2'" using added(5) s
    by (simp add: same_but_queue_steps)
  moreover have "drained ?w2'" using d by (simp add: drained_steps)
  ultimately show ?thesis by blast
qed

lemma add_loop_sim:
  assumes "add_loop E f b w1 = Some (r, w1')"
  shows "\<forall>x w2. r = Returns x \<longrightarrow> same_but_queue w1 w2 \<longrightarrow> drained w2 \<longrightarrow>
           (\<exists>w2'. add_loop E f b w2 = Some (Returns x, w2') \<and> same_but_queue w1' w2' \<and>
                  drained w2')"
  using assms
proof (induction w1 "(r, w1')" rule: add_loop_induct)
  case (nil w0)
  then show ?case by simp
next
  case (cancelled w0 e)
  show ?case
  proof (intro allI impI)
    fix x w2 assume a: "r = Returns x" "same_but_queue w0 w2" "drained w2"
    from a(2) cancelled(1) have "ctx (adder w2) = Some (Some e)"
      by (simp add: same_but_queue_def)
    then have "add_loop E f b w2 = Some (Returns (Some (ContextError e)), observe Select w2)"
      by (subst add_loop.simps) (simp add: Let_def)
    with a cancelled(2,3) show "\<exists>w2'. add_loop E f b w2 = Some (Returns x, w2') \<and>
        same_but_queue w1' w2' \<and> drained w2'"
      by (intro exI [of _ "observe Select w2"])
         (auto simp: same_but_queue_steps drained_steps)
  qed
next
  case (panic w0)
  then show ?case by simp
next
  case (error w0 err)
  show ?case
  proof (intro allI impI)
    fix x w2 assume a: "r = Returns x" "same_but_queue w0 w2" "drained w2"
    from a(2) error(1) have c: "ctx (adder w2) = Some None" by (simp add: same_but_queue_def)
    from addFile_sim [OF error(2), of "observe Select w2"] a(2,3) obtain w2' where
      w2': "addFile E f b (observe Select w2) = Some (Returns (Some err), w2')"
        "same_but_queue w1' w2'" "drained w2'"
      by (auto simp: same_but_queue_steps drained_steps)
    from c w2'(1) error(3) a(1)
    have "add_loop E f b w2 = Some (Returns x, w2')"
      by (subst add_loop.simps) (auto simp: Let_def)
    with w2'(2,3) show "\<exists>w2'. add_loop E f b w2 = Some (Returns x, w2') \<and>
        same_but_queue w1' w2' \<and> drained w2'" by blast
  qed
next
  case (step w0 wm)
  show ?case
  proof (intro allI impI)
    fix x w2 assume a: "r = Returns x" "same_but_queue w0 w2" "drained w2"
    from a(2) step(1) have c: "ctx (adder w2) = Some None" by (simp add: same_but_queue_def)
    from addFile_sim [OF step(2), of "observe Select w2"] a(2,3) obtain w2m where
      w2m: "addFile E f b (observe Select w2) = Some (Returns None, w2m)"
        "same_but_queue wm w2m" "drained w2m"
      by (auto simp: same_but_queue_steps drained_steps)
    from step(4) a(1) w2m(2,3) obtain w2' where
      w2': "add_loop E f b w2m = Some (Returns x, w2')" "same_but_queue w1' w2'" "drained w2'"
      by blast
    from c w2m(1) w2'(1) have "add_loop E f b w2 = Some (Returns x, w2')"
      by (subst add_loop.simps) (simp add: Let_def)
    with w2'(2,3) show "\<exists>w2'. add_loop E f b w2 = Some (Returns x, w2') \<and>
        same_but_queue w1' w2' \<and> drained w2'" by blast
  qed
qed

lemma finalize_sim:
  assumes "finalize E b w1 = Some (Returns x, w1')"
    and "same_but_queue w1 w2" and "drained w2"
  shows "\<exists>w2'. finalize E b w2 = Some (Returns x, w2') \<and> same_but_queue w1' w2' \<and> drained w2'"
proof -
  from assms(2) have eq: "calls w2 = calls w1" "token w2 = token w1"
    by (simp_all add: same_but_queue_def token_def)
  from assms(3) have em: "emit evs w2 = Some (Returns (), put evs w2)" for evs
    by (simp add: drained_def emit_Drain_open)
  from assms(1) show ?thesis
  proof (cases rule: finalize_cases)
    case panicked
    then show ?thesis by simp
  next
    case (failed evs err)
    let ?w2' = "record_call E (FinalizeCall b evs (Returns (Inl err))) (put evs w2)"
    from failed(1,2) eq em have "finalize E b w2 = Some (Returns x, ?w2')"
      by (simp add: finalize_def Let_def)
    moreover have "same_but_queue w1' ?w2'" using failed(3) assms(2)
      by (simp add: same_but_queue_steps)
    moreover have "drained ?w2'" using assms(3) by (simp add: drained_steps)
    ultimately show ?thesis by blast
  next
    case (cluster evs root w1a r2)
    let ?w2a = "record_call E (FinalizeCall b evs (Returns (Inr root))) (put evs w2)"
    let ?w2' = "record_call E (ClusterFinalizeCall (dgs (adder ?w2a)) root r2) ?w2a"
    have s: "same_but_queue w1a ?w2a" using cluster(2) assms(2)
      by (simp add: same_but_queue_steps)
    then have e2: "dgs (adder ?w2a) = dgs (adder w1a)" "calls ?w2a = calls w1a"
      "token ?w2a = token w1a"
      by (simp_all add: same_but_queue_def token_def)
    with cluster(3) have r2: "dgsFinalize E (dgs (adder ?w2a)) (calls ?w2a) (token ?w2a) root = r2"
      by simp
    from cluster(1) eq em r2 cluster(5) have "finalize E b w2 = Some (Returns x, ?w2')"
      by (simp add: finalize_def Let_def split: sum.splits)
    moreover have "same_but_queue w1' ?w2'" using cluster(4) s e2(1)
      by (simp add: same_but_queue_steps)
    moreover have "drained ?w2'" using assms(3) by (simp add: drained_steps)
    ultimately show ?thesis by blast
  qed
qed

lemma run_sim:
  assumes "run E f w1 = Some (Returns x, w1')"
    and "same_but_queue w1 w2" and "drained w2"
  shows "\<exists>w2'. run E f w2 = Some (Returns x, w2') \<and> same_but_queue w1' w2' \<and> drained w2'"
proof -
  from assms(2) have eq: "calls w2 = calls w1" "token w2 = token w1"
    "dgs (adder w2) = dgs (adder w1)" "params (adder w2) = params (adder w1)"
    by (simp_all add: same_but_queue_def token_def)
  have st: "same_but_queue (record_call E k w1) (record_call E k w2)"
    "drained (record_call E k w2)" for k
    using assms(2,3) by (simp_all add: same_but_queue_steps drained_steps)
  from assms(1) show ?thesis
  proof (cases rule: run_cases)
    case (new_failed err)
    with eq have "run E f w2
        = Some (Returns x, record_call E (NewAdderCall (dgs (adder w1)) (Some err)) w2)"
      by (simp add: run_def Let_def)
    with new_failed(3) st show ?thesis by blast
  next
    case (bad_version err)
    with eq have "run E f w2
        = Some (Returns x, record_call E (NewAdderCall (dgs (adder w1)) None) w2)"
      by (simp add: run_def Let_def)
    with bad_version(4) st show ?thesis by blast
  next
    case (bad_hash prefix)
    with eq have "run E f w2
        = Some (Returns x, record_call E (NewAdderCall (dgs (adder w1)) None) w2)"
      by (simp add: run_def Let_def)
    with bad_hash(5) st show ?thesis by blast
  next
    case (looped prefix code lr w1m)
    let ?b = "configured (params (adder w1)) prefix code"
    let ?w2n = "record_call E (NewAdderCall (dgs (adder w1)) None) w2"
    from looped(5) consider
        (err) e where "lr = Returns (Some e)" "x = (None, Some e)" "w1' = w1m"
      | (fin) "lr = Returns None" "finalize E ?b w1m = Some (Returns x, w1')"
      by auto
    then show ?thesis
    proof cases
      case (err e)
      from add_loop_sim [OF looped(4), rule_format, OF err(1) st(1) st(2)] obtain w2m where
        w2m: "add_loop E f ?b ?w2n = Some (Returns (Some e), w2m)"
          "same_but_queue w1m w2m" "drained w2m" by blast
      from looped(1-3) eq w2m(1) err(2) have "run E f w2 = Some (Returns x, w2m)"
        by (simp add: run_def Let_def configured_def)
      with w2m(2,3) err(3) show ?thesis by blast
    next
      case fin
      from add_loop_sim [OF looped(4), rule_format, OF fin(1) st(1) st(2)] obtain w2m where
        w2m: "add_loop E f ?b ?w2n = Some (Returns None, w2m)"
          "same_but_queue w1m w2m" "drained w2m" by blast
      from finalize_sim [OF fin(2) w2m(2,3)] obtain w2' where
        f2: "finalize E ?b w2m = Some (Returns x, w2')"
          and "same_but_queue w1' w2'" "drained w2'" by blast
      from looped(1-3) eq w2m(1) f2 have "run E f w2 = Some (Returns x, w2')"
        by (simp add: run_def Let_def configured_def)
      with \<open>same_but_queue w1' w2'\<close> \<open>drained w2'\<close> show ?thesis by blast
    qed
  qed
qed

lemma FromFiles_sim:
  assumes "FromFiles E c f w1 = Some (Returns x, w1')"
    and "same_but_queue w1 w2" and "drained w2"
  shows "\<exists>w2'. FromFiles E c f w2 = Some (Returns x, w2') \<and> calls w2' = calls w1'"
  using assms(1)
proof (cases rule: FromFiles_cases)
  case (guard e)
  from assms(2) have "ctx (adder w2) = ctx (adder w1)" "calls w2 = calls w1"
    by (simp_all add: same_but_queue_def)
  with guard have "FromFiles E c f w2
      = Some (Returns x, w2\<lparr>adder := setContext c (adder w2)\<rparr>)"
    "calls (w2\<lparr>adder := setContext c (adder w2)\<rparr>) = calls w1'"
    by (simp_all add: FromFiles_def Let_def ctx_setContext)
  then show ?thesis by blast
next
  case (ran r1 w1m)
  let ?w1 = "w1\<lparr>adder := setContext c (adder w1)\<rparr>"
  let ?w2 = "w2\<lparr>adder := setContext c (adder w2)\<rparr>"
  from ran(3) have "Returns x = fst (deferred r1 w1m)" and w1': "w1' = snd (deferred r1 w1m)"
    by (metis fst_conv, metis snd_conv)
  then have r1: "r1 = Returns x" by (simp add: fst_deferred split: if_splits)
  from assms(2) have c2: "ctx (adder w2) = ctx (adder w1)" by (simp add: same_but_queue_def)
  have s: "same_but_queue ?w1 ?w2" using assms(2)
    by (simp add: same_but_queue_def ctx_setContext)
  have d: "drained ?w2" using assms(3) by (simp add: drained_def)
  from run_sim [OF ran(2) [unfolded r1] s d] obtain w2m where
    w2m: "run E f ?w2 = Some (Returns x, w2m)" "same_but_queue w1m w2m" "drained w2m"
    by blast
  from w2m(3) have "\<not> closed (output_chan (adder w2m))" by (simp add: drained_def)
  moreover from ran(1) c2 have "ctx (setContext c (adder w2)) = Some None"
    by (simp add: ctx_setContext)
  ultimately have "FromFiles E c f w2 = Some (Returns x, snd (deferred (Returns x) w2m))"
    using w2m(1) by (intro FromFiles_of_run)
  moreover from w2m(2) w1' have "calls (snd (deferred (Returns x) w2m)) = calls w1'"
    by (simp add: same_but_queue_def)
  ultimately show ?thesis by blast
qed

lemma New_same:
  "same_but_queue (w\<lparr>adder := New ds p out\<rparr>) (w\<lparr>adder := New ds p out'\<rparr>)"
  by (simp add: same_but_queue_def New_def)

lemma New_drained: "drained (w\<lparr>adder := New ds p None\<rparr>)"
  by (simp add: drained_def New_def)

section \<open>The claims\<close>

text \<open>
  C1.  Once a call of \<open>FromFiles\<close> or \<open>FromMultipart\<close> has ended, in whatever way, the
  adder's context is done with some error \<open>x\<close>.  Any further call, with any context,
  source and environment, returns no identifier and the context's error \<open>x\<close>.  A further
  \<open>FromFiles\<close> leaves the world as it was: nothing is added to the trace.  A further
  \<open>FromMultipart\<close> adds one entry, the \<open>Close\<close> of its own wrapper, and no call of the
  builder or of the cluster DAG service.
\<close>

theorem single_use:
  assumes "FromFiles E c f w0 = Some (r, w1) \<or> FromMultipart E c rd w0 = Some (r, w1)"
  shows "\<exists>x. ctx (adder w1) = Some (Some x) \<and>
           FromFiles E2 c2 f2 w1 = Some (Returns (None, Some (ContextError x)), w1) \<and>
           FromMultipart E2 c2 rd2 w1 =
             Some (Returns (None, Some (ContextError x)),
                   w1\<lparr>calls := calls w1 @
                          [(Some x, CloseCall (MultipartFile ''multipart/form-data'' rd2))]\<rparr>)"
proof -
  have "\<exists>x. ctx (adder w1) = Some (Some x)"
    using assms
  proof
    assume "FromFiles E c f w0 = Some (r, w1)"
    then show ?thesis by (rule FromFiles_spent)
  next
    assume m: "FromMultipart E c rd w0 = Some (r, w1)"
    then obtain w' where
      f: "FromFiles E c (MultipartFile ''multipart/form-data'' rd) w0 = Some (r, w')"
      and w1: "w1 = record_call E (CloseCall (MultipartFile ''multipart/form-data'' rd)) w'"
      by (auto simp: FromMultipart_def Let_def split: option.splits)
    from FromFiles_spent [OF f] obtain x where "ctx (adder w') = Some (Some x)" ..
    with w1 show ?thesis by simp
  qed
  then obtain x where x: "ctx (adder w1) = Some (Some x)" ..
  show ?thesis
    using x FromFiles_on_spent [OF x] record_call_on_spent [OF x]
    by (intro exI [of _ x]) (simp add: FromMultipart_def Let_def)
qed

theorem single_use_witness:
  "FromFiles example_env None example_source example_start
     = Some (Returns (Some ''root'', None), spent) \<and>
   ctx (adder spent) = Some (Some Canceled) \<and>
   FromFiles example_env None example_source spent
     = Some (Returns (None, Some (ContextError Canceled)), spent) \<and>
   FromMultipart example_env None 7 spent
     = Some (Returns (None, Some (ContextError Canceled)),
             spent\<lparr>calls := calls spent @
                [(Some Canceled, CloseCall (MultipartFile ''multipart/form-data'' 7))]\<rparr>)"
proof -
  have first: "FromFiles example_env None example_source example_start
     = Some (Returns (Some ''root'', None), spent)"
    by code_simp
  have c: "ctx (adder spent) = Some (Some Canceled)"
    by code_simp
  from single_use [where E = example_env and c = None and f = example_source
      and ?w0.0 = example_start and r = "Returns (Some ''root'', None)" and ?w1.0 = spent
      and ?E2.0 = example_env and ?c2.0 = None and ?f2.0 = example_source and ?rd2.0 = 7]
    first c
  show ?thesis by simp
qed

text \<open>
  C2.  In the calls a run of \<open>FromFiles\<close> adds to the trace, the cluster DAG service's
  \<open>Finalize\<close> either does not occur, or it is the last entry, it comes right after a
  builder's \<open>Finalize\<close> that returned a root, which it is given, and nothing before
  the two is a cluster \<open>Finalize\<close>, a builder's \<open>Finalize\<close> or a step that failed.  If a
  pull or an add returned an error other than \<open>io.EOF\<close>, or the builder's \<open>Finalize\<close>
  returned an error, the cluster \<open>Finalize\<close> is not called, and the call returns no
  identifier and an error (or panics in the deferred \<open>close\<close>, when someone else has
  closed the output channel).
\<close>

theorem finalize_once:
  assumes "FromFiles E c f w0 = Some (r, w')"
  shows "\<exists>new. calls w' = calls w0 @ new \<and>
     ((\<forall>e\<in>set new. \<not> is_ClusterFinalize (snd e)) \<or>
      (\<exists>pre s b evs s' d root res.
          new = pre @ [(s, FinalizeCall b evs (Returns (Inr root))),
                       (s', ClusterFinalizeCall d root res)] \<and>
          (\<forall>e\<in>set pre. \<not> is_ClusterFinalize (snd e) \<and> \<not> failed (snd e) \<and>
                        \<not> is_Finalize (snd e)))) \<and>
     ((\<exists>e\<in>set new. failed (snd e)) \<longrightarrow>
        (\<forall>e\<in>set new. \<not> is_ClusterFinalize (snd e)) \<and>
        (r = Panic \<or> (\<exists>err. r = Returns (None, Some err))))"
  using assms
proof (cases rule: FromFiles_cases)
  case (guard e)
  then show ?thesis by (intro exI [of _ "[]"]) simp
next
  case (ran r1 w1)
  from ran(3) have w': "w' = snd (deferred r1 w1)" and r: "r = fst (deferred r1 w1)"
    by (metis snd_conv, metis fst_conv)
  from r have rr: "r = Panic \<or> r = r1" by (simp add: fst_deferred)
  from run_entries [OF ran(2)] obtain new where
    new: "calls w1 = calls w0 @ new"
     "(\<forall>e\<in>set new. \<not> is_ClusterFinalize (snd e)) \<or>
      (\<exists>pre s b evs s' d root res.
          new = pre @ [(s, FinalizeCall b evs (Returns (Inr root))),
                       (s', ClusterFinalizeCall d root res)] \<and>
          (\<forall>e\<in>set pre. \<not> is_ClusterFinalize (snd e) \<and> \<not> failed (snd e) \<and>
                        \<not> is_Finalize (snd e)))"
     "(\<exists>e\<in>set new. failed (snd e)) \<longrightarrow>
        (\<forall>e\<in>set new. \<not> is_ClusterFinalize (snd e)) \<and>
        (r1 = Panic \<or> (\<exists>err. r1 = Returns (None, Some err)))"
    by auto
  from new(3) rr have
    "(\<exists>e\<in>set new. failed (snd e)) \<longrightarrow>
        (\<forall>e\<in>set new. \<not> is_ClusterFinalize (snd e)) \<and>
        (r = Panic \<or> (\<exists>err. r = Returns (None, Some err)))"
    by auto
  with new(1,2) w' show ?thesis by (intro exI [of _ new]) simp
qed

theorem finalize_once_witness:
  "FromFiles failing_env None example_source example_start
     = Some (Returns (None, Some (ErrorString ''unexpected EOF'')), failed_end) \<and>
   filter (failed \<circ> snd) (calls failed_end)
     = [(None, NextFileCall (NamedFile ''dir'') (Inl (ErrorString ''unexpected EOF'')))] \<and>
   filter (is_ClusterFinalize \<circ> snd) (calls failed_end) = []"
proof -
  have first: "FromFiles failing_env None example_source example_start
     = Some (Returns (None, Some (ErrorString ''unexpected EOF'')), failed_end)"
    by code_simp
  have f: "filter (failed \<circ> snd) (calls failed_end)
     = [(None, NextFileCall (NamedFile ''dir'') (Inl (ErrorString ''unexpected EOF'')))]"
    by code_simp
  have e: "calls example_start = []"
    by (simp add: example_start_def fresh_def)
  from finalize_once [OF first] obtain new where
    c: "calls failed_end = calls example_start @ new" and
    imp: "(\<exists>e\<in>set new. failed (snd e)) \<longrightarrow>
            (\<forall>e\<in>set new. \<not> is_ClusterFinalize (snd e)) \<and>
            (Returns (None :: Cid option, Some (ErrorString ''unexpected EOF'')) = Panic \<or>
             (\<exists>err. Returns (None :: Cid option, Some (ErrorString ''unexpected EOF''))
                      = Returns (None :: Cid option, Some err)))"
    by blast
  from c e have n: "new = calls failed_end" by simp
  have "filter (failed \<circ> snd) new \<noteq> []" unfolding n f by simp
  then have "\<exists>e\<in>set new. failed (snd e)"
    by (simp add: filter_empty_conv)
  with imp have "\<forall>e\<in>set new. \<not> is_ClusterFinalize (snd e)" by (rule mp [THEN conjunct1])
  then have "filter (is_ClusterFinalize \<circ> snd) (calls failed_end) = []"
    unfolding n by (simp add: filter_empty_conv)
  with first f show ?thesis by (intro conjI)
qed











text \<open>
  C7.  Take a call that gets as far as the configuration: the context is live at the
  guard, the builder is made, and the output channel is open.  If
  \<open>PrefixForCidVersion\<close> rejects \<open>CidVersion\<close>, the call returns no identifier and the
  error \<open>bad CID Version\<close>, and the construction of the builder is the only call it
  has made: no file is pulled or added.  If the version is accepted and \<open>HashFun\<close>, in
  lower case, is registered with the code \<open>code\<close>, then every call made on the builder
  during the run, each \<open>AddFile\<close> and the \<open>Finalize\<close>, is made on the one builder
  configured from the parameters, whose \<open>CidBuilder\<close> is the prefix of that version
  with \<open>MhType\<close> set to \<open>code\<close> and \<open>MhLength\<close> set to \<open>-1\<close>.
\<close>

theorem prefix_setup:
  assumes live: "ctx (setContext c (adder w0)) = Some None"
    and built: "NewAdder E (calls w0) None (dgs (adder w0)) = None"
    and opn: "\<not> closed (output_chan (adder w0))"
  shows "(\<forall>err. PrefixForCidVersion E (CidVersion (params (adder w0))) = Inl err \<longrightarrow>
           (\<exists>w'. FromFiles E c f w0 =
                   Some (Returns (None, Some (ErrorString (''bad CID Version: '' @ Error err))),
                         w') \<and>
                 calls w' = calls w0 @ [(None, NewAdderCall (dgs (adder w0)) None)])) \<and>
         (\<forall>prefix code r w'.
            PrefixForCidVersion E (CidVersion (params (adder w0))) = Inr prefix \<longrightarrow>
            Names E (ToLower (HashFun (params (adder w0)))) = Some code \<longrightarrow>
            FromFiles E c f w0 = Some (r, w') \<longrightarrow>
            (\<exists>new. calls w' = calls w0 @ new \<and>
               (\<forall>e\<in>set new. \<forall>b. builder_of (snd e) = Some b \<longrightarrow>
                  b = configured (params (adder w0)) prefix code \<and>
                  CidBuilder b = Some (prefix\<lparr>MhType := code, MhLength := - 1\<rparr>))))"
proof (intro conjI allI impI)
  fix err
  assume bad: "PrefixForCidVersion E (CidVersion (params (adder w0))) = Inl err"
  let ?w = "w0\<lparr>adder := setContext c (adder w0)\<rparr>"
  let ?w1 = "record_call E (NewAdderCall (dgs (adder w0)) None) ?w"
  let ?R = "Returns (None :: Cid option,
                     Some (ErrorString (''bad CID Version: '' @ Error err)))"
  have t: "token ?w = None" using live by (rule token_setContext)
  have run: "run E f ?w = Some (?R, ?w1)"
    using built bad t by (simp add: run_def Let_def)
  have op: "\<not> closed (output_chan (adder ?w1))" using opn by simp
  from FromFiles_of_run [OF live run op]
  have ff: "FromFiles E c f w0 = Some (?R, snd (deferred ?R ?w1))" .
  have c: "calls (snd (deferred ?R ?w1)) = calls w0 @ [(None, NewAdderCall (dgs (adder w0)) None)]"
    using t by simp
  from ff c show "\<exists>w'. FromFiles E c f w0 = Some (?R, w') \<and>
                 calls w' = calls w0 @ [(None, NewAdderCall (dgs (adder w0)) None)]"
    by (intro exI [of _ "snd (deferred ?R ?w1)"] conjI)
next
  fix prefix code r w'
  assume pf: "PrefixForCidVersion E (CidVersion (params (adder w0))) = Inr prefix"
    and hf: "Names E (ToLower (HashFun (params (adder w0)))) = Some code"
    and ff: "FromFiles E c f w0 = Some (r, w')"
  from ff show "\<exists>new. calls w' = calls w0 @ new \<and>
               (\<forall>e\<in>set new. \<forall>b. builder_of (snd e) = Some b \<longrightarrow>
                  b = configured (params (adder w0)) prefix code \<and>
                  CidBuilder b = Some (prefix\<lparr>MhType := code, MhLength := - 1\<rparr>))"
  proof (cases rule: FromFiles_cases)
    case (guard e)
    with live show ?thesis by simp
  next
    case (ran r1 w1)
    from ran(3) have w': "w' = snd (deferred r1 w1)" by (metis snd_conv)
    from run_builder [OF ran(2), of prefix code] pf hf obtain new where
      new: "calls w1 = calls w0 @ new"
        "\<forall>e\<in>set new. \<forall>b. builder_of (snd e) = Some b \<longrightarrow>
               b = configured (params (adder w0)) prefix code"
      by auto
    have "CidBuilder (configured (params (adder w0)) prefix code)
            = Some (prefix\<lparr>MhType := code, MhLength := - 1\<rparr>)"
      by (simp add: configured_def)
    with new w' show ?thesis by (intro exI [of _ new]) auto
  qed
qed

theorem prefix_setup_witness:
  "FromFiles example_env None example_source bad_version_start
     = Some (Returns (None, Some (ErrorString ''bad CID Version: unknown CID version'')),
             bad_version_end) \<and>
   calls bad_version_end = [(None, NewAdderCall 0 None)] \<and>
   FromFiles example_env None example_source example_start
     = Some (Returns (Some ''root'', None), spent) \<and>
   length (filter (\<lambda>e. builder_of (snd e) \<noteq> None) (calls spent)) = 3 \<and>
   list_all (\<lambda>e. case builder_of (snd e) of
                     None \<Rightarrow> True
                   | Some b \<Rightarrow> CidBuilder b
                       = Some \<lparr>Version = 1, Codec = 112, MhType = 19, MhLength = - 1\<rparr>)
            (calls spent)"
proof -
  have b: "ctx (setContext None (adder bad_version_start)) = Some None"
    "NewAdder example_env (calls bad_version_start) None (dgs (adder bad_version_start)) = None"
    "\<not> closed (output_chan (adder bad_version_start))"
    by code_simp+
  have bv: "PrefixForCidVersion example_env (CidVersion (params (adder bad_version_start)))
              = Inl (ErrorString ''unknown CID version'')" by code_simp
  have b0: "calls bad_version_start = []" "dgs (adder bad_version_start) = 0" by code_simp+
  from prefix_setup [OF b, of example_source, THEN conjunct1, rule_format, OF bv] b0
  obtain w' where w': "FromFiles example_env None example_source bad_version_start
       = Some (Returns (None, Some (ErrorString ''bad CID Version: unknown CID version'')), w')"
     "calls w' = [(None, NewAdderCall 0 None)]"
    by auto
  from w'(1) have bve: "bad_version_end = w'" by (simp add: bad_version_end_def)
  have g: "ctx (setContext None (adder example_start)) = Some None"
    "NewAdder example_env (calls example_start) None (dgs (adder example_start)) = None"
    "\<not> closed (output_chan (adder example_start))"
    by code_simp+
  have gv: "PrefixForCidVersion example_env (CidVersion (params (adder example_start)))
              = Inr \<lparr>Version = 1, Codec = 112, MhType = 18, MhLength = - 1\<rparr>" by code_simp
  have gh: "Names example_env (ToLower (HashFun (params (adder example_start)))) = Some 19"
    by code_simp
  have g0: "calls example_start = []" by code_simp
  have first: "FromFiles example_env None example_source example_start
     = Some (Returns (Some ''root'', None), spent)"
    by code_simp
  from prefix_setup [OF g, of example_source, THEN conjunct2, rule_format, OF gv gh first] g0
  have "\<forall>e\<in>set (calls spent). \<forall>b. builder_of (snd e) = Some b \<longrightarrow>
          CidBuilder b = Some (\<lparr>Version = 1, Codec = 112, MhType = 18, MhLength = - 1\<rparr>
                                 \<lparr>MhType := 19, MhLength := - 1\<rparr>)"
    by auto
  then have all: "list_all (\<lambda>e. case builder_of (snd e) of
                     None \<Rightarrow> True
                   | Some b \<Rightarrow> CidBuilder b
                       = Some \<lparr>Version = 1, Codec = 112, MhType = 19, MhLength = - 1\<rparr>)
            (calls spent)"
    by (auto simp: list_all_iff split: option.splits)
  have n: "length (filter (\<lambda>e. builder_of (snd e) \<noteq> None) (calls spent)) = 3"
    by code_simp
  from w' bve first all n show ?thesis by simp
qed

text \<open>
  C8.  The goroutine \<open>for range out {}\<close> that \<open>New\<close> starts is a receiver that takes
  every event, and a listener is the receiving side of a channel the caller supplies.
  An adder made without an output channel has an open channel of its own, of capacity
  100, with such a receiver.  Its run never waits for room in the channel: if the source
  has an end, the call returns, however many events the builder sends.  Its result does
  not depend on the listener: whenever the run of an adder made with a channel of the
  caller's returns a result, the run of the adder made without one returns the same
  result after the same calls; and the other way round when the caller's channel is open
  and its listener takes every event.
\<close>

theorem queue_decoupling:
  "output_chan (New ds p None)
     = \<lparr>capacity = 100, sent = [], closed = False, taker = Drain\<rparr> \<and>
   (NextFile E f k = Inl err \<and> fpos w \<le> k \<longrightarrow>
      FromFiles E c f (w\<lparr>adder := New ds p None\<rparr>) \<noteq> None) \<and>
   (FromFiles E c f (w\<lparr>adder := New ds p (Some q)\<rparr>) = Some (Returns x, w1) \<longrightarrow>
      (\<exists>w2. FromFiles E c f (w\<lparr>adder := New ds p None\<rparr>) = Some (Returns x, w2) \<and>
            calls w2 = calls w1)) \<and>
   (taker q = Drain \<and> \<not> closed q \<and>
    FromFiles E c f (w\<lparr>adder := New ds p None\<rparr>) = Some (Returns x, w2) \<longrightarrow>
      (\<exists>w1. FromFiles E c f (w\<lparr>adder := New ds p (Some q)\<rparr>) = Some (Returns x, w1) \<and>
            calls w1 = calls w2))"
proof (intro conjI impI)
  show "output_chan (New ds p None)
     = \<lparr>capacity = 100, sent = [], closed = False, taker = Drain\<rparr>"
    by (simp add: New_def)
next
  assume "NextFile E f k = Inl err \<and> fpos w \<le> k"
  then have "NextFile E f k = Inl err" "fpos (w\<lparr>adder := New ds p None\<rparr>) \<le> k"
    "taker (output_chan (adder (w\<lparr>adder := New ds p None\<rparr>))) = Drain"
    by (simp_all add: New_def)
  then show "FromFiles E c f (w\<lparr>adder := New ds p None\<rparr>) \<noteq> None"
    by (rule FromFiles_returns)
next
  assume "FromFiles E c f (w\<lparr>adder := New ds p (Some q)\<rparr>) = Some (Returns x, w1)"
  from FromFiles_sim [OF this New_same New_drained]
  show "\<exists>w2. FromFiles E c f (w\<lparr>adder := New ds p None\<rparr>) = Some (Returns x, w2) \<and>
            calls w2 = calls w1" .
next
  assume a: "taker q = Drain \<and> \<not> closed q \<and>
    FromFiles E c f (w\<lparr>adder := New ds p None\<rparr>) = Some (Returns x, w2)"
  then have "drained (w\<lparr>adder := New ds p (Some q)\<rparr>)"
    by (simp add: drained_def New_def)
  from FromFiles_sim [OF a [THEN conjunct2, THEN conjunct2] New_same this]
  show "\<exists>w1. FromFiles E c f (w\<lparr>adder := New ds p (Some q)\<rparr>) = Some (Returns x, w1) \<and>
            calls w1 = calls w2" .
qed

theorem queue_decoupling_witness:
  "FromFiles example_env None example_source example_start
     = Some (Returns (Some ''root'', None), spent) \<and>
   output_chan (adder example_start)
     = \<lparr>capacity = 100, sent = [], closed = False, taker = Drain\<rparr> \<and>
   map_option fst (FromFiles example_env None example_source listener_start)
     = Some (Returns (Some ''root'', None)) \<and>
   map_option (calls \<circ> snd) (FromFiles example_env None example_source listener_start)
     = Some (calls spent)"
proof -
  have first: "FromFiles example_env None example_source example_start
     = Some (Returns (Some ''root'', None), spent)"
    by code_simp
  have es: "example_start\<lparr>adder := New 0 example_params None\<rparr> = example_start"
    by (simp add: example_start_def fresh_def)
  have ls: "example_start\<lparr>adder := New 0 example_params (Some listener_queue)\<rparr>
              = listener_start"
    by (simp add: listener_start_def)
  have q: "taker listener_queue = Drain \<and> \<not> closed listener_queue"
    by (simp add: listener_queue_def)
  have src: "NextFile example_env example_source 2 = Inl EOF \<and> fpos example_start \<le> 2"
    by code_simp
  note t = queue_decoupling [where ds = 0 and p = example_params and E = example_env
      and f = example_source and c = None and w = example_start and k = 2 and err = EOF
      and q = listener_queue and x = "(Some ''root'', None)" and ?w2.0 = spent,
      unfolded es ls]
  from t [THEN conjunct1] have o: "output_chan (adder example_start)
     = \<lparr>capacity = 100, sent = [], closed = False, taker = Drain\<rparr>"
    by (simp add: example_start_def fresh_def)
  from t [THEN conjunct2, THEN conjunct2, THEN conjunct2] q first
  obtain w1 where "FromFiles example_env None example_source listener_start
      = Some (Returns (Some ''root'', None), w1)" "calls w1 = calls spent"
    by blast
  with first o show ?thesis by simp
qed

text \<open>
  C9.  \<open>FromMultipart\<close> returns what \<open>FromFiles\<close> returns on the \<open>MultipartFile\<close> that
  wraps the reader with the media type \<open>multipart/form-data\<close>, and ends exactly when
  that call does; the world it leaves is the one \<open>FromFiles\<close> leaves, with the \<open>Close\<close>
  of the wrapper as one more entry of the trace.
\<close>

theorem multipart_delegates:
  "map_option fst (FromMultipart E c rd w) =
     map_option fst (FromFiles E c (MultipartFile ''multipart/form-data'' rd) w) \<and>
   map_option snd (FromMultipart E c rd w) =
     map_option (record_call E (CloseCall (MultipartFile ''multipart/form-data'' rd)) \<circ> snd)
       (FromFiles E c (MultipartFile ''multipart/form-data'' rd) w)"
  by (simp add: FromMultipart_def Let_def split: option.splits)

text \<open>
  C10.  \<open>New\<close> stores the parameters it is given, and no call of \<open>FromFiles\<close> or
  \<open>FromMultipart\<close> changes them, however the call ends.
\<close>

theorem params_unchanged:
  assumes "FromFiles E c f w = Some (r, w') \<or> FromMultipart E c rd w = Some (r, w')"
  shows "params (New ds p out) = p \<and> params (adder w') = params (adder w)"
proof
  show "params (New ds p out) = p" by (simp add: New_def)
  from assms show "params (adder w') = params (adder w)"
  proof
    assume "FromFiles E c f w = Some (r, w')"
    then show ?thesis by (rule FromFiles_params)
  next
    assume "FromMultipart E c rd w = Some (r, w')"
    then obtain w1 where
      f: "FromFiles E c (MultipartFile ''multipart/form-data'' rd) w = Some (r, w1)"
      and w': "w' = record_call E (CloseCall (MultipartFile ''multipart/form-data'' rd)) w1"
      by (auto simp: FromMultipart_def Let_def split: option.splits)
    from FromFiles_params [OF f] w' show ?thesis by simp
  qed
qed

theorem params_unchanged_witness:
  "FromFiles example_env None example_source example_start
     = Some (Returns (Some ''root'', None), spent) \<and>
   params (New 0 example_params None) = example_params \<and>
   params (adder spent) = example_params"
proof -
  have first: "FromFiles example_env None example_source example_start
     = Some (Returns (Some ''root'', None), spent)"
    by code_simp
  have "params (adder example_start) = example_params"
    by (simp add: example_start_def fresh_def New_def)
  with params_unchanged [where rd = 0 and ds = 0 and p = example_params and out = None,
      OF disjI1 [OF first]] first
  show ?thesis by simp
qed

end
